theory Spec2Isabelle
  imports Main "HOL-Library.Word" "HOL-Library.Char_ord" "HOL-Library.List_Lexorder"
begin

section \<open>The worker pool (threadpool.h)\<close>

text \<open>
  The pool's shared state is the FIFO task queue and the stop flag; both are only touched
  under \<open>queue_mutex\<close>, so one call of \<open>enqueue\<close> is one atomic step on that state.
  A thrown \<open>std::runtime_error\<close> is the \<open>Inl\<close> result; the returned future is
  represented by the task it belongs to.
\<close>

record 'task ThreadPool =
  tasks :: "'task list"
  stop :: bool

datatype error = runtime_error string

definition enqueue :: "'task ThreadPool \<Rightarrow> 'task \<Rightarrow> (error + 'task) \<times> 'task ThreadPool" where
  "enqueue pool task =
     (if stop pool
      then (Inl (runtime_error ''Called enqueue() on stopped ThreadPool''), pool)
      else (Inr task, pool\<lparr>tasks := tasks pool @ [task]\<rparr>))"

section \<open>Union-find nodes (struct Data) on an explicit heap\<close>

text \<open>
  Every \<open>Data*\<close> is an index into the list of all nodes allocated so far; the null pointer
  is \<open>None\<close>. \<open>depth\<close> and \<open>smallest\<close> are C \<open>long\<close>s; they are modelled as
  unbounded integers (a depth only grows by one when two trees of equal depth are merged).
  \<open>char\<close> is taken as signed, as on the x86 targets of the Makefile's g++, and
  \<open>s[0]\<close> of an empty \<open>std::string\<close> is the terminating zero.
\<close>

record Data =
  sig :: string
  parent :: "nat option"
  depth :: int
  smallest :: int
  minimal :: nat

type_synonym heap = "Data list"

definition char_int :: "char \<Rightarrow> int" where
  "char_int c = (if (of_char c :: int) < 128 then of_char c else of_char c - 256)"

definition first_char :: "string \<Rightarrow> int" where
  "first_char s = (case s of [] \<Rightarrow> 0 | c # _ \<Rightarrow> char_int c)"

text \<open>The complexity proxy \<open>s[0] - 'a'\<close>.\<close>

definition proxy :: "string \<Rightarrow> int" where
  "proxy s = first_char s - char_int CHR ''a''"

text \<open>\<open>new Data(from)\<close>: the node is appended, its address is the old heap size.\<close>

definition new_Data :: "heap \<Rightarrow> string \<Rightarrow> heap \<times> nat" where
  "new_Data h from =
     (h @ [\<lparr>sig = from, parent = None, depth = 0, smallest = proxy from, minimal = length h\<rparr>],
      length h)"

text \<open>
  The first loop of \<open>root\<close> (and the whole of \<open>Data::root\<close>): follow parent pointers.
  \<open>None\<close> means that the call does not return (an endless parent chain or an invalid
  pointer).
\<close>

partial_function (option) find_root :: "heap \<Rightarrow> nat \<Rightarrow> nat option" where
  "find_root h n =
     (if n < length h
      then (case parent (h ! n) of None \<Rightarrow> Some n | Some p \<Rightarrow> find_root h p)
      else None)"

text \<open>The second loop of \<open>root\<close>: re-hang every node on the path below \<open>ans\<close>.\<close>

partial_function (option) compress :: "heap \<Rightarrow> nat \<Rightarrow> nat \<Rightarrow> heap option" where
  "compress h n ans =
     (if n < length h
      then (case parent (h ! n) of
              None \<Rightarrow> None
            | Some tmp \<Rightarrow>
                if tmp = ans then Some h
                else compress (h[n := (h ! n)\<lparr>parent := Some ans\<rparr>]) tmp ans)
      else None)"

definition root :: "heap \<Rightarrow> nat \<Rightarrow> (heap \<times> nat) option" where
  "root h n =
     (case find_root h n of
        None \<Rightarrow> None
      | Some ans \<Rightarrow>
          if n = ans then Some (h, ans)
          else (case compress h n ans of None \<Rightarrow> None | Some h' \<Rightarrow> Some (h', ans)))"

text \<open>The update shared by the three branches of \<open>join\<close>: \<open>lo\<close> is hung below \<open>hi\<close>.\<close>

definition take_min :: "heap \<Rightarrow> nat \<Rightarrow> nat \<Rightarrow> heap" where
  "take_min h lo hi =
     (if smallest (h ! lo) < smallest (h ! hi)
      then h[hi := (h ! hi)\<lparr>smallest := smallest (h ! lo), minimal := minimal (h ! lo)\<rparr>]
      else h)"

definition join :: "heap \<Rightarrow> nat \<Rightarrow> nat \<Rightarrow> (heap \<times> bool) option" where
  "join h a b =
     (case root h a of
        None \<Rightarrow> None
      | Some (h1, aRoot) \<Rightarrow>
          (case root h1 b of
             None \<Rightarrow> None
           | Some (h2, bRoot) \<Rightarrow>
               if aRoot = bRoot then Some (h2, False)
               else if depth (h2 ! aRoot) > depth (h2 ! bRoot) then
                 Some (take_min (h2[bRoot := (h2 ! bRoot)\<lparr>parent := Some aRoot\<rparr>]) bRoot aRoot,
                       True)
               else if depth (h2 ! bRoot) > depth (h2 ! aRoot) then
                 Some (take_min (h2[aRoot := (h2 ! aRoot)\<lparr>parent := Some bRoot\<rparr>]) aRoot bRoot,
                       True)
               else
                 (let h3 = h2[aRoot := (h2 ! aRoot)\<lparr>parent := Some bRoot\<rparr>];
                      h4 = h3[bRoot := (h3 ! bRoot)\<lparr>depth := depth (h3 ! bRoot) + 1\<rparr>]
                  in Some (take_min h4 aRoot bRoot, True))))"

section \<open>Well-formed heaps and sequences of union-find calls\<close>

text \<open>
  A heap is well formed when every parent pointer is valid and leads to a node of
  strictly greater depth; this is what union by depth maintains, and it rules out cycles.
\<close>

definition heap_ok :: "heap \<Rightarrow> bool" where
  "heap_ok h \<longleftrightarrow>
     (\<forall>i<length h. \<forall>p. parent (h ! i) = Some p \<longrightarrow> p < length h \<and> depth (h ! i) < depth (h ! p))"

text \<open>Two heaps that differ at most in parent pointers, with the same roots.\<close>

definition same_data :: "heap \<Rightarrow> heap \<Rightarrow> bool" where
  "same_data h h' \<longleftrightarrow>
     length h' = length h \<and>
     (\<forall>i<length h.
        sig (h' ! i) = sig (h ! i) \<and> depth (h' ! i) = depth (h ! i) \<and>
        smallest (h' ! i) = smallest (h ! i) \<and> minimal (h' ! i) = minimal (h ! i) \<and>
        (parent (h' ! i) = None \<longleftrightarrow> parent (h ! i) = None))"

text \<open>What one merging call of \<open>join\<close> does, seen from the heap after the two \<open>root\<close> calls.\<close>

definition linked :: "heap \<Rightarrow> heap \<Rightarrow> nat \<Rightarrow> nat \<Rightarrow> bool" where
  "linked h h' lo hi \<longleftrightarrow>
     heap_ok h' \<and> length h' = length h \<and>
     (\<forall>i<length h. parent (h' ! i) = None \<longleftrightarrow> parent (h ! i) = None \<and> i \<noteq> lo) \<and>
     (\<forall>m<length h. find_root h' m = (if find_root h m = Some lo then Some hi else find_root h m)) \<and>
     (\<forall>i<length h. sig (h' ! i) = sig (h ! i)) \<and>
     smallest (h' ! hi) = min (smallest (h ! lo)) (smallest (h ! hi)) \<and>
     minimal (h' ! hi) =
       (if smallest (h ! lo) < smallest (h ! hi) then minimal (h ! lo) else minimal (h ! hi)) \<and>
     (\<forall>i<length h. i \<noteq> hi \<longrightarrow>
        smallest (h' ! i) = smallest (h ! i) \<and> minimal (h' ! i) = minimal (h ! i))"

text \<open>
  A client of the union-find structure allocates nodes and calls \<open>join\<close> and \<open>root\<close>
  in any order; \<open>ops_ok n\<close> says that every pointer handed over is the address of a node
  allocated before, \<open>n\<close> nodes existing at the start.
\<close>

datatype op = New string | Join nat nat | Root nat

fun step :: "op \<Rightarrow> heap \<Rightarrow> heap option" where
  "step (New s) h = Some (fst (new_Data h s))"
| "step (Join a b) h = map_option fst (join h a b)"
| "step (Root a) h = map_option fst (root h a)"

fun run :: "op list \<Rightarrow> heap \<Rightarrow> heap option" where
  "run [] h = Some h"
| "run (x # xs) h = (case step x h of None \<Rightarrow> None | Some h' \<Rightarrow> run xs h')"

fun ops_ok :: "nat \<Rightarrow> op list \<Rightarrow> bool" where
  "ops_ok n [] = True"
| "ops_ok n (New s # xs) = ops_ok (Suc n) xs"
| "ops_ok n (Join a b # xs) = (a < n \<and> b < n \<and> ops_ok n xs)"
| "ops_ok n (Root a # xs) = (a < n \<and> ops_ok n xs)"

text \<open>Connected by a chain of joins: the equivalence generated by the \<open>Join\<close> calls.\<close>

inductive connected :: "op list \<Rightarrow> nat \<Rightarrow> nat \<Rightarrow> bool" for ops where
  same: "connected ops a a"
| joined: "Join a b \<in> set ops \<Longrightarrow> connected ops a b"
| sym: "connected ops a b \<Longrightarrow> connected ops b a"
| trans: "connected ops a b \<Longrightarrow> connected ops b c \<Longrightarrow> connected ops a c"

definition tracks :: "heap \<Rightarrow> op list \<Rightarrow> bool" where
  "tracks h ops \<longleftrightarrow>
     heap_ok h \<and> (\<forall>a b. Join a b \<in> set ops \<longrightarrow> a < length h \<and> b < length h) \<and>
     (\<forall>a<length h. \<forall>b<length h. find_root h a = find_root h b \<longleftrightarrow> connected ops a b)"

text \<open>At every root, \<open>minimal\<close> is a valid node whose signature has the proxy \<open>smallest\<close>.\<close>

definition min_ok :: "heap \<Rightarrow> bool" where
  "min_ok h \<longleftrightarrow>
     (\<forall>r<length h. parent (h ! r) = None \<longrightarrow>
        minimal (h ! r) < length h \<and> proxy (sig (h ! minimal (h ! r))) = smallest (h ! r))"

declare find_root.simps [code] compress.simps [code]

section \<open>Containers, tokens and the external engine\<close>

text \<open>
  A \<open>std::map\<close> is a list of key-value pairs kept in ascending key order, which is the
  order its iterators visit. \<open>map_insert\<close> is \<open>std::map::insert\<close> (an existing key
  keeps its value), \<open>map_assign\<close> is assignment through a found iterator or through
  \<open>operator[]\<close>, and \<open>map_of\<close> is \<open>find\<close>. Strings are ordered as
  \<open>std::string\<close> orders them, byte by byte.
\<close>

fun map_insert :: "'k::linorder \<Rightarrow> 'v \<Rightarrow> ('k \<times> 'v) list \<Rightarrow> ('k \<times> 'v) list" where
  "map_insert k v [] = [(k, v)]"
| "map_insert k v ((k', v') # xs) =
     (if k < k' then (k, v) # (k', v') # xs
      else if k = k' then (k', v') # xs
      else (k', v') # map_insert k v xs)"

fun map_assign :: "'k::linorder \<Rightarrow> 'v \<Rightarrow> ('k \<times> 'v) list \<Rightarrow> ('k \<times> 'v) list" where
  "map_assign k v [] = [(k, v)]"
| "map_assign k v ((k', v') # xs) =
     (if k < k' then (k, v) # (k', v') # xs
      else if k = k' then (k, v) # xs
      else (k', v') # map_assign k v xs)"

definition map_get :: "('k \<times> 'v) list \<Rightarrow> 'k \<Rightarrow> 'v \<Rightarrow> 'v" where
  "map_get m k dflt = (case map_of m k of None \<Rightarrow> dflt | Some v \<Rightarrow> v)"

type_synonym Profile = string
type_synonym Graph = "(string \<times> nat) list"
type_synonym Cases = "(Profile \<times> string list) list"

text \<open>\<open>s[i]\<close> for \<open>i \<le> s.size()\<close>: the character, or the terminating zero.\<close>

definition char_at :: "string \<Rightarrow> nat \<Rightarrow> char" where
  "char_at s i = (if i < length s then s ! i else CHR 0x00)"

text \<open>Formatted extraction \<open>l >> s\<close>, repeated to the end of the line.\<close>

definition isspace :: "char \<Rightarrow> bool" where
  "isspace c \<longleftrightarrow> c \<in> {CHR '' '', CHR 0x09, CHR 0x0A, CHR 0x0B, CHR 0x0C, CHR 0x0D}"

fun split_ws :: "string \<Rightarrow> string \<Rightarrow> string list" where
  "split_ws cur [] = (if cur = [] then [] else [cur])"
| "split_ws cur (c # cs) =
     (if isspace c then (if cur = [] then split_ws [] cs else cur # split_ws [] cs)
      else split_ws (cur @ [c]) cs)"

definition tokens :: "string \<Rightarrow> string list" where
  "tokens line = split_ws [] line"

text \<open>
  The triangulation engine (Regina) is not part of the repository; the functions the
  program calls are parameters. A move is called twice by the program: once to ask
  whether it is legal (\<open>check = true, perform = false\<close>), which leaves the triangulation
  alone, and once on a copy to carry it out (\<open>check = false, perform = true\<close>).
\<close>

record 'tri engine =
  fromIsoSig :: "string \<Rightarrow> 'tri option"
  isoSig :: "'tri \<Rightarrow> string"
  intelligentSimplify :: "'tri \<Rightarrow> 'tri \<times> bool"
  countEdges :: "'tri \<Rightarrow> nat"
  countTriangles :: "'tri \<Rightarrow> nat"
  threeTwoLegal :: "'tri \<Rightarrow> nat \<Rightarrow> bool"
  threeTwoMove :: "'tri \<Rightarrow> nat \<Rightarrow> 'tri"
  fourFourLegal :: "'tri \<Rightarrow> nat \<Rightarrow> nat \<Rightarrow> bool"
  fourFourMove :: "'tri \<Rightarrow> nat \<Rightarrow> nat \<Rightarrow> 'tri"
  twoThreeLegal :: "'tri \<Rightarrow> nat \<Rightarrow> bool"
  twoThreeMove :: "'tri \<Rightarrow> nat \<Rightarrow> 'tri"
  isOrientable :: "'tri \<Rightarrow> bool"
  homology :: "'tri \<Rightarrow> string"
  turaevViro :: "'tri \<Rightarrow> int \<Rightarrow> bool \<Rightarrow> string"

section \<open>Reading a file (read)\<close>

text \<open>
  The state of \<open>read\<close>: the heap of nodes, the three tables it fills, the running
  maximum and the current profile (the parameters and locals \<open>waiting\<close>, \<open>graphs\<close>,
  \<open>nComp\<close>, \<open>maxN\<close> and \<open>p\<close> of \<open>read\<close>). A file is the list of its lines. \<open>None\<close> is a run
  that does not return (a null triangulation is dereferenced when the engine rejects a
  signature). \<open>nComp\<close> counts in \<open>unsigned\<close>.
\<close>

record reader =
  rheap :: heap
  rwaiting :: Cases
  rgraphs :: "(Profile \<times> Graph) list"
  rnComp :: "(Profile \<times> 32 word) list"
  rmaxN :: int
  rcur :: Profile

definition is_header :: "string \<Rightarrow> bool" where
  "is_header line \<longleftrightarrow> char_at line 0 = CHR ''#'' \<and> char_at line 1 \<noteq> CHR ''q''"

text \<open>The loop over the remaining tokens of a data line; \<open>d\<close> is the first token's node.\<close>

fun read_members :: "nat \<Rightarrow> string list \<Rightarrow> heap \<times> Graph \<Rightarrow> (heap \<times> Graph) option" where
  "read_members d [] (h, g) = Some (h, g)"
| "read_members d (s # ss) (h, g) =
     (let (h1, e) = new_Data h s in
      case join h1 d e of
        None \<Rightarrow> None
      | Some (h2, _) \<Rightarrow> read_members d ss (h2, map_insert s e g))"

definition read_line :: "'tri engine \<Rightarrow> reader \<Rightarrow> string \<Rightarrow> reader option" where
  "read_line eng st line =
     (if is_header line then Some (st\<lparr>rcur := line\<rparr>)
      else case tokens line of
        [] \<Rightarrow> Some st
      | s # rest \<Rightarrow>
          if s = ''#q'' then
            Some (st\<lparr>rwaiting :=
              fold (\<lambda>t w. map_assign (rcur st) (map_get w (rcur st) [] @ [t]) w) rest (rwaiting st)\<rparr>)
          else
            let st1 = (if proxy s > rmaxN st then st\<lparr>rmaxN := proxy s\<rparr> else st) in
            case fromIsoSig eng s of
              None \<Rightarrow> None
            | Some tri \<Rightarrow>
                if snd (intelligentSimplify eng tri) then Some st1
                else
                  let (h1, d) = new_Data (rheap st1) s;
                      g1 = map_insert s d (map_get (rgraphs st1) (rcur st1) [])
                  in case read_members d rest (h1, g1) of
                       None \<Rightarrow> None
                     | Some (h2, g2) \<Rightarrow>
                         Some (st1\<lparr>rheap := h2,
                                   rgraphs := map_assign (rcur st1) g2 (rgraphs st1),
                                   rnComp := map_assign (rcur st1)
                                     (map_get (rnComp st1) (rcur st1) 0 + 1) (rnComp st1)\<rparr>))"

fun read_lines :: "'tri engine \<Rightarrow> string list \<Rightarrow> reader \<Rightarrow> reader option" where
  "read_lines eng [] st = Some st"
| "read_lines eng (line # lines) st =
     (case read_line eng st line of None \<Rightarrow> None | Some st' \<Rightarrow> read_lines eng lines st')"

text \<open>
  \<open>read\<close> as its two callers use it: all tables empty at the start. The result carries the
  returned \<open>maxN\<close> and the tables filled through the reference parameters.
\<close>

definition read :: "'tri engine \<Rightarrow> string list \<Rightarrow> reader option" where
  "read eng infile =
     read_lines eng infile
       \<lparr>rheap = [], rwaiting = [], rgraphs = [], rnComp = [], rmaxN = 0, rcur = ''#''\<rparr>"

text \<open>
  The data lines as the file format describes them: not a header, at least one token,
  the first token not the queue marker. Their first tokens:
\<close>

definition data_line :: "string \<Rightarrow> bool" where
  "data_line l \<longleftrightarrow> \<not> is_header l \<and> tokens l \<noteq> [] \<and> hd (tokens l) \<noteq> ''#q''"

definition data_first_tokens :: "string list \<Rightarrow> string list" where
  "data_first_tokens lines = map (\<lambda>l. hd (tokens l)) (filter data_line lines)"

text \<open>
  A small engine for concrete runs. A triangulation is its own signature. \<open>cS\<close> and
  \<open>dT\<close> can be simplified; \<open>cD\<close> admits a 3-2 move to \<open>bX\<close>; \<open>cA\<close> and \<open>cE\<close>
  admit a 4-4 move (to \<open>cB\<close> and \<open>cF\<close>); \<open>cG\<close> admits a 2-3 move to \<open>dT\<close>.
\<close>

definition toy_engine :: "string engine" where
  "toy_engine =
     \<lparr>fromIsoSig = Some,
      isoSig = (\<lambda>t. t),
      intelligentSimplify =
        (\<lambda>t. if t = ''cS'' then (''bS'', True) else if t = ''dT'' then (''cH'', True) else (t, False)),
      countEdges = (\<lambda>t. if t = ''cA'' \<or> t = ''cD'' \<or> t = ''cE'' then 1 else 0),
      countTriangles = (\<lambda>t. if t = ''cG'' then 1 else 0),
      threeTwoLegal = (\<lambda>t i. t = ''cD''),
      threeTwoMove = (\<lambda>t i. ''bX''),
      fourFourLegal = (\<lambda>t i j. (t = ''cA'' \<or> t = ''cE'') \<and> j = 0),
      fourFourMove = (\<lambda>t i j. if t = ''cA'' then ''cB'' else ''cF''),
      twoThreeLegal = (\<lambda>t i. t = ''cG''),
      twoThreeMove = (\<lambda>t i. ''dT''),
      isOrientable = (\<lambda>t. True),
      homology = (\<lambda>t. ''Z''),
      turaevViro = (\<lambda>t r parity. ''1'')\<rparr>"

section \<open>Exploring Pachner moves (process, pachner, dump_pachner)\<close>

text \<open>
  What \<open>process\<close> works on: the heap, the graph and the queue it was handed by
  reference, its own copy of the component counts (the parameter \<open>nComp\<close> is passed by
  value) and the local flag \<open>shrunk\<close>. A queue entry is an iterator into the graph:
  \<open>Some key\<close> for an entry, \<open>None\<close> for \<open>graph.end()\<close>. Messages on \<open>std::cerr\<close>
  are not modelled.
\<close>

record proc =
  pheap :: heap
  pgraph :: Graph
  pq :: "string option list"
  pnComp :: "(Profile \<times> 32 word) list"
  shrunk :: bool

text \<open>The body shared by the three loops of \<open>process\<close>, from \<open>smallest = next[0] - 'a'\<close> on.\<close>

definition visit :: "nat \<Rightarrow> Profile \<Rightarrow> int \<Rightarrow> string \<Rightarrow> proc \<Rightarrow> proc option" where
  "visit p prof maxN next st =
     (let st1 = (if proxy next < maxN then st\<lparr>shrunk := True\<rparr> else st) in
      case map_of (pgraph st1) next of
        None \<Rightarrow>
          (let (h1, e) = new_Data (pheap st1) next in
           case join h1 p e of
             None \<Rightarrow> None
           | Some (h2, _) \<Rightarrow>
               Some (st1\<lparr>pheap := h2, pgraph := map_insert next e (pgraph st1),
                         pq := pq st1 @ [Some next]\<rparr>))
      | Some e \<Rightarrow>
          (case join (pheap st1) p e of
             None \<Rightarrow> None
           | Some (h2, merged) \<Rightarrow>
               Some (st1\<lparr>pheap := h2,
                         pnComp := (if merged
                                    then map_assign prof (map_get (pnComp st1) prof 0 - 1) (pnComp st1)
                                    else pnComp st1)\<rparr>)))"

fun for_each :: "'a list \<Rightarrow> ('a \<Rightarrow> 's \<Rightarrow> 's option) \<Rightarrow> 's \<Rightarrow> 's option" where
  "for_each [] body st = Some st"
| "for_each (x # xs) body st =
     (case body x st of None \<Rightarrow> None | Some st' \<Rightarrow> for_each xs body st')"

definition process ::
  "'tri engine \<Rightarrow> nat \<Rightarrow> Profile \<Rightarrow> int \<Rightarrow> (Profile \<times> 32 word) list \<Rightarrow>
   heap \<times> Graph \<times> string option list \<Rightarrow> (bool \<times> heap \<times> Graph \<times> string option list) option" where
  "process eng p prof maxN nComp = (\<lambda>(h, g, qu).
     if p < length h then
       (case fromIsoSig eng (sig (h ! p)) of
          None \<Rightarrow> Some (True, h, g, qu)
        | Some t \<Rightarrow>
            (case for_each [0..<countEdges eng t]
                    (\<lambda>i st. if threeTwoLegal eng t i
                       then visit p prof maxN
                              (isoSig eng (fst (intelligentSimplify eng (threeTwoMove eng t i)))) st
                       else Some st)
                    \<lparr>pheap = h, pgraph = g, pq = qu, pnComp = nComp, shrunk = False\<rparr> of
               None \<Rightarrow> None
             | Some st1 \<Rightarrow>
            (case for_each (List.product [0..<countEdges eng t] [0, 1])
                    (\<lambda>(i, j) st. if fourFourLegal eng t i j
                       then visit p prof maxN
                              (isoSig eng (fst (intelligentSimplify eng (fourFourMove eng t i j)))) st
                       else Some st)
                    st1 of
               None \<Rightarrow> None
             | Some st2 \<Rightarrow>
            (case for_each [0..<countTriangles eng t]
                    (\<lambda>i st. if twoThreeLegal eng t i
                       then visit p prof maxN (isoSig eng (twoThreeMove eng t i)) st
                       else Some st)
                    st2 of
               None \<Rightarrow> None
             | Some st3 \<Rightarrow>
                 Some (\<not> (shrunk st3 \<and> map_get (pnComp st3) prof 0 = 1),
                       pheap st3, pgraph st3, pq st3)))))
     else None)"

text \<open>The state of one graph's exploration in \<open>pachner\<close>.\<close>

record explorer =
  xheap :: heap
  xgraph :: Graph
  xq :: "string option list"
  keepGoing :: bool

text \<open>
  The inner \<open>while\<close> loop. \<open>None\<close> is a run that does not return; calling \<open>front\<close> on
  an empty queue is counted as such.
\<close>

partial_function (option) drain ::
  "'tri engine \<Rightarrow> Profile \<Rightarrow> int \<Rightarrow> (Profile \<times> 32 word) list \<Rightarrow> explorer \<Rightarrow> explorer option" where
  "drain eng prof maxN nComp st =
     (case xq st of
        [] \<Rightarrow> None
      | None # _ \<Rightarrow> Some st
      | Some key # _ \<Rightarrow>
          if \<not> keepGoing st then Some st
          else (case map_of (xgraph st) key of
                  None \<Rightarrow> None
                | Some p \<Rightarrow>
                    (case process eng p prof maxN nComp (xheap st, xgraph st, xq st) of
                       None \<Rightarrow> None
                     | Some (kg, h, g, qu) \<Rightarrow>
                         drain eng prof maxN nComp
                           \<lparr>xheap = h, xgraph = g, xq = tl qu, keepGoing = kg\<rparr>)))"

text \<open>The \<open>for\<close> loop over the levels; the result carries the final value of \<open>i\<close>.\<close>

function levels_loop ::
  "'tri engine \<Rightarrow> Profile \<Rightarrow> int \<Rightarrow> (Profile \<times> 32 word) list \<Rightarrow> int \<Rightarrow> int \<Rightarrow> explorer \<Rightarrow>
   (int \<times> explorer) option" where
  "levels_loop eng prof maxN nComp levels i st =
     (if i < levels \<and> keepGoing st then
        (case drain eng prof maxN nComp (st\<lparr>xq := xq st @ [None]\<rparr>) of
           None \<Rightarrow> None
         | Some st' \<Rightarrow>
             (case xq st' of
                [] \<Rightarrow> None
              | _ # rest \<Rightarrow> levels_loop eng prof maxN nComp levels (i + 1) (st'\<lparr>xq := rest\<rparr>)))
      else Some (i, st))"
  by pat_completeness auto
termination
  by (relation "measure (\<lambda>(eng, prof, maxN, nComp, levels, i, st). nat (levels - i))") auto

declare levels_loop.simps [simp del]

definition seed_queue :: "Cases \<Rightarrow> Profile \<Rightarrow> Graph \<Rightarrow> string option list" where
  "seed_queue waiting prof g =
     (case map_of waiting prof of
        None \<Rightarrow> map (\<lambda>(key, d). Some key) g
      | Some sigs \<Rightarrow> map Some (filter (\<lambda>s. map_of g s \<noteq> None) sigs))"

text \<open>\<open>std::multimap::insert\<close>: after the entries with an equal key.\<close>

fun mm_insert :: "'k::linorder \<Rightarrow> 'v \<Rightarrow> ('k \<times> 'v) list \<Rightarrow> ('k \<times> 'v) list" where
  "mm_insert k v [] = [(k, v)]"
| "mm_insert k v ((k', v') # xs) =
     (if k < k' then (k, v) # (k', v') # xs else (k', v') # mm_insert k v xs)"

text \<open>The first loop of \<open>dump_pachner\<close>; \<open>root\<close> compresses paths as it goes.\<close>

fun dump_comps :: "int \<Rightarrow> Graph \<Rightarrow> heap \<times> (string \<times> string) list \<Rightarrow>
    (heap \<times> (string \<times> string) list) option" where
  "dump_comps maxN [] (h, comps) = Some (h, comps)"
| "dump_comps maxN ((key, d) # g) (h, comps) =
     (if first_char key > char_int CHR ''a'' + maxN then dump_comps maxN g (h, comps)
      else case root h d of
        None \<Rightarrow> None
      | Some (h1, r) \<Rightarrow>
          if smallest (h1 ! r) = maxN then
            (case root h1 d of
               None \<Rightarrow> None
             | Some (h2, r2) \<Rightarrow> dump_comps maxN g (h2, mm_insert (sig (h2 ! r2)) key comps))
          else dump_comps maxN g (h1, comps))"

text \<open>The second loop: what is written between the header line and the final newline.\<close>

fun write_comps :: "string option \<Rightarrow> (string \<times> string) list \<Rightarrow> string" where
  "write_comps prev [] = []"
| "write_comps prev ((k, v) # xs) =
     (case prev of
        None \<Rightarrow> []
      | Some k' \<Rightarrow> if k' \<noteq> k then [CHR 0x0A] else [CHR '' '']) @ v @ write_comps (Some k) xs"

definition dump_pachner :: "Profile \<Rightarrow> Graph \<Rightarrow> int \<Rightarrow> heap \<Rightarrow> (heap \<times> string) option" where
  "dump_pachner p g maxN h =
     (case dump_comps maxN g (h, []) of
        None \<Rightarrow> None
      | Some (h', comps) \<Rightarrow> Some (h', p @ [CHR 0x0A] @ write_comps None comps @ [CHR 0x0A]))"

text \<open>
  The body of the loop over the graphs in \<open>pachner\<close>, and \<open>pachner\<close> itself. Every graph
  is dumped to the same output name, so the result is the heap and the last content
  written to it (\<open>None\<close>: never opened).
\<close>

definition pachner_graph ::
  "'tri engine \<Rightarrow> int \<Rightarrow> Cases \<Rightarrow> (Profile \<times> 32 word) list \<Rightarrow> int \<Rightarrow> Profile \<Rightarrow> Graph \<Rightarrow> heap \<Rightarrow>
   (explorer \<times> string) option" where
  "pachner_graph eng levels waiting nComp maxN prof g h =
     (case levels_loop eng prof maxN nComp levels 0
             \<lparr>xheap = h, xgraph = g, xq = seed_queue waiting prof g, keepGoing = True\<rparr> of
        None \<Rightarrow> None
      | Some (i, st) \<Rightarrow>
          (case dump_pachner prof (xgraph st) maxN (xheap st) of
             None \<Rightarrow> None
           | Some (h', out) \<Rightarrow> Some (st\<lparr>xheap := h'\<rparr>, out)))"

fun pachner_graphs ::
  "'tri engine \<Rightarrow> int \<Rightarrow> Cases \<Rightarrow> (Profile \<times> 32 word) list \<Rightarrow> int \<Rightarrow> (Profile \<times> Graph) list \<Rightarrow>
   heap \<times> string option \<Rightarrow> (heap \<times> string option) option" where
  "pachner_graphs eng levels waiting nComp maxN [] (h, out) = Some (h, out)"
| "pachner_graphs eng levels waiting nComp maxN ((prof, g) # gs) (h, out) =
     (case pachner_graph eng levels waiting nComp maxN prof g h of
        None \<Rightarrow> None
      | Some (st, out') \<Rightarrow>
          pachner_graphs eng levels waiting nComp maxN gs (xheap st, Some out'))"

definition pachner :: "'tri engine \<Rightarrow> string list \<Rightarrow> int \<Rightarrow> string option option" where
  "pachner eng infile levels =
     (case read eng infile of
        None \<Rightarrow> None
      | Some rd \<Rightarrow>
          map_option snd
            (pachner_graphs eng levels (rwaiting rd) (rnComp rd) (rmaxN rd) (rgraphs rd)
               (rheap rd, None)))"

declare drain.simps [code]

text \<open>
  The signatures one call of \<open>process\<close> derives from the triangulation \<open>t\<close> of its node,
  in the order of its three loops: the legal 3-2 moves per edge and the legal 4-4 moves per
  edge and axis, each applied to a copy of \<open>t\<close> which is then simplified, and the legal
  2-3 moves per triangle, applied to a copy which is not simplified.
\<close>

definition candidates :: "'tri engine \<Rightarrow> 'tri \<Rightarrow> string list" where
  "candidates eng t =
     map (\<lambda>i. isoSig eng (fst (intelligentSimplify eng (threeTwoMove eng t i))))
       (filter (threeTwoLegal eng t) [0..<countEdges eng t]) @
     map (\<lambda>(i, j). isoSig eng (fst (intelligentSimplify eng (fourFourMove eng t i j))))
       (filter (\<lambda>(i, j). fourFourLegal eng t i j) (List.product [0..<countEdges eng t] [0, 1])) @
     map (\<lambda>i. isoSig eng (twoThreeMove eng t i))
       (filter (twoThreeLegal eng t) [0..<countTriangles eng t])"

text \<open>The number of distinct roots among the nodes of a graph: its connectivity classes.\<close>

definition live_classes :: "heap \<Rightarrow> Graph \<Rightarrow> nat" where
  "live_classes h g = length (remdups (map (\<lambda>(key, d). find_root h d) g))"

text \<open>
  The signatures of a graph that pass the two tests of \<open>dump_pachner\<close>: the proxy is at
  most \<open>maxN\<close>, and the root of the class stores a \<open>smallest\<close> equal to \<open>maxN\<close>.
\<close>

definition kept :: "heap \<Rightarrow> Graph \<Rightarrow> int \<Rightarrow> string set" where
  "kept h g maxN =
     {k. \<exists>d r. (k, d) \<in> set g \<and> proxy k \<le> maxN \<and> find_root h d = Some r \<and>
            smallest (h ! r) = maxN}"

section \<open>Adding invariants (Profile::extend, partition, dump_partition)\<close>

definition extend :: "'tri engine \<Rightarrow> 'tri \<Rightarrow> Profile \<Rightarrow> Profile" where
  "extend eng tri str =
     (let currently_known = int (length (filter (\<lambda>c. c = CHR '';'') str)) in
      (if currently_known = 0 then str @ (if isOrientable eng tri then ''orbl'' else ''nor'')
       else if currently_known = 1 then str @ homology eng tri
       else
         (let a = currently_known mod 3; b = currently_known div 3 in
          if a = 0 then str @ turaevViro eng tri (2 * b + 1) False
          else if a = 1 then str @ turaevViro eng tri (2 * b + 2) True
          else str @ turaevViro eng tri (2 * b + 3) True)) @ '';'')"

fun extend_times :: "nat \<Rightarrow> 'tri engine \<Rightarrow> 'tri \<Rightarrow> Profile \<Rightarrow> Profile" where
  "extend_times 0 eng tri p = p"
| "extend_times (Suc n) eng tri p = extend_times n eng tri (extend eng tri p)"

text \<open>
  The loop of \<open>partition\<close> over the nodes of one graph: every root signature not yet in
  \<open>profiles\<close> gets the graph's profile extended \<open>depth\<close> times. \<open>Data::root\<close> is
  \<open>find_root\<close>, without compression. Extending through a null triangulation does not
  return.
\<close>

fun collect_profiles ::
  "'tri engine \<Rightarrow> int \<Rightarrow> Profile \<Rightarrow> heap \<Rightarrow> Graph \<Rightarrow> (string \<times> Profile) list \<Rightarrow>
   (string \<times> Profile) list option" where
  "collect_profiles eng depth' prof h [] profiles = Some profiles"
| "collect_profiles eng depth' prof h ((key, d) # g) profiles =
     (case find_root h d of
        None \<Rightarrow> None
      | Some r \<Rightarrow>
          (case map_of profiles (sig (h ! r)) of
             Some _ \<Rightarrow> collect_profiles eng depth' prof h g profiles
           | None \<Rightarrow>
               (case fromIsoSig eng (sig (h ! r)) of
                  None \<Rightarrow>
                    if 0 < depth' then None
                    else collect_profiles eng depth' prof h g
                           (map_insert (sig (h ! r)) prof profiles)
                | Some tri \<Rightarrow>
                    collect_profiles eng depth' prof h g
                      (map_insert (sig (h ! r)) (extend_times (nat depth') eng tri prof) profiles))))"

text \<open>The three loops of \<open>dump_partition\<close>. \<open>profiles.at\<close> throws on a missing key.\<close>

fun dp_comps :: "heap \<Rightarrow> Graph \<Rightarrow> (string \<times> string list) list \<Rightarrow>
    (string \<times> string list) list option" where
  "dp_comps h [] comps = Some comps"
| "dp_comps h ((key, d) # g) comps =
     (case find_root h d of
        None \<Rightarrow> None
      | Some r \<Rightarrow>
          dp_comps h g
            (map_assign (sig (h ! r)) (map_get comps (sig (h ! r)) [] @ [sig (h ! d)]) comps))"

fun dp_parts :: "(string \<times> Profile) list \<Rightarrow> (string \<times> string list) list \<Rightarrow>
    (string \<times> string list list) list \<Rightarrow> (string \<times> string list list) list option" where
  "dp_parts profiles [] parts = Some parts"
| "dp_parts profiles ((rsig, members) # comps) parts =
     (case map_of profiles rsig of
        None \<Rightarrow> None
      | Some p \<Rightarrow> dp_parts profiles comps (map_assign p (map_get parts p [] @ [members]) parts))"

text \<open>\<open>operator<<\<close> on the \<open>int\<close> counter, which is never negative.\<close>

fun show_nat :: "nat \<Rightarrow> string" where
  "show_nat n =
     (if n < 10 then [char_of (48 + n)]
      else show_nat (n div 10) @ [char_of (48 + n mod 10)])"

declare show_nat.simps [simp del]

definition part_text :: "string \<Rightarrow> string list list \<Rightarrow> string list \<Rightarrow> string" where
  "part_text pstr comps qu =
     pstr @ [CHR 0x0A] @
     concat (map (\<lambda>members. concat (map (\<lambda>s. s @ '' '') members) @ [CHR 0x0A]) comps) @
     (if 0 < length qu then ''#q'' @ concat (map (\<lambda>s. '' '' @ s) qu) @ [CHR 0x0A] else [])"

text \<open>
  The files written, by name; opening a name again truncates what was there.
\<close>

fun dp_write :: "string \<Rightarrow> string list \<Rightarrow> nat \<Rightarrow> (string \<times> string list list) list \<Rightarrow>
    (string \<times> string) list \<Rightarrow> (string \<times> string) list" where
  "dp_write fname qu count [] files = files"
| "dp_write fname qu count ((pstr, comps) # parts) files =
     dp_write fname qu (Suc count) parts
       (map_assign (fname @ show_nat count @ ''.sigs'') (part_text pstr comps qu) files)"

definition dump_partition ::
  "string \<Rightarrow> heap \<Rightarrow> Graph \<Rightarrow> (string \<times> Profile) list \<Rightarrow> string list \<Rightarrow>
   (string \<times> string) list \<Rightarrow> (string \<times> string) list option" where
  "dump_partition fname h g profiles qu files =
     (case dp_comps h g [] of
        None \<Rightarrow> None
      | Some comps \<Rightarrow>
          (case dp_parts profiles comps [] of
             None \<Rightarrow> None
           | Some parts \<Rightarrow> Some (dp_write fname qu 0 parts files)))"

fun partition_graphs ::
  "'tri engine \<Rightarrow> int \<Rightarrow> string \<Rightarrow> heap \<Rightarrow> Cases \<Rightarrow> (Profile \<times> 32 word) list \<Rightarrow>
   (Profile \<times> Graph) list \<Rightarrow> (string \<times> Profile) list \<times> (string \<times> string) list \<Rightarrow>
   ((string \<times> Profile) list \<times> (string \<times> string) list) option" where
  "partition_graphs eng depth' oname h waiting nComp [] (profiles, files) = Some (profiles, files)"
| "partition_graphs eng depth' oname h waiting nComp ((prof, g) # gs) (profiles, files) =
     (if map_get nComp prof 0 = 1
      then partition_graphs eng depth' oname h waiting nComp gs (profiles, files)
      else case collect_profiles eng depth' prof h g profiles of
        None \<Rightarrow> None
      | Some profiles' \<Rightarrow>
          (case dump_partition oname h g profiles' (map_get waiting prof []) files of
             None \<Rightarrow> None
           | Some files' \<Rightarrow>
               partition_graphs eng depth' oname h waiting nComp gs (profiles', files')))"

text \<open>
  \<open>partition\<close> (the name is taken in HOL): the result is the set of files it leaves,
  by name, starting from none.
\<close>

definition partition_census ::
  "'tri engine \<Rightarrow> string list \<Rightarrow> int \<Rightarrow> string \<Rightarrow> (string \<times> string) list option" where
  "partition_census eng infile depth' oname =
     (case read eng infile of
        None \<Rightarrow> None
      | Some rd \<Rightarrow>
          map_option snd
            (partition_graphs eng depth' oname (rheap rd) (rwaiting rd) (rnComp rd) (rgraphs rd)
               ([], [])))"

section \<open>Submitting to a stopped pool\<close>

text \<open>
  C9. A call of \<open>enqueue\<close> on a pool whose stop flag is set throws the runtime error
  and leaves the pool, hence its task queue, as it was.
\<close>

theorem enqueue_after_stop:
  "stop pool \<Longrightarrow>
     enqueue pool task = (Inl (runtime_error ''Called enqueue() on stopped ThreadPool''), pool)"
  by (simp add: enqueue_def)

theorem enqueue_after_stop_witness:
  "stop \<lparr>tasks = [1::nat, 2], stop = True\<rparr> \<and>
   enqueue \<lparr>tasks = [1::nat, 2], stop = True\<rparr> 3 =
     (Inl (runtime_error ''Called enqueue() on stopped ThreadPool''),
      \<lparr>tasks = [1, 2], stop = True\<rparr>)"
  using enqueue_after_stop [of "\<lparr>tasks = [1::nat, 2], stop = True\<rparr>" 3] by simp

section \<open>Properties of the union-find heap\<close>

lemma find_root_at_root: "n < length h \<Longrightarrow> parent (h ! n) = None \<Longrightarrow> find_root h n = Some n"
  by (subst find_root.simps) simp

lemma find_root_step: "n < length h \<Longrightarrow> parent (h ! n) = Some p \<Longrightarrow> find_root h n = find_root h p"
  by (subst find_root.simps) simp

lemma find_root_invalid: "\<not> n < length h \<Longrightarrow> find_root h n = None"
  by (subst find_root.simps) simp

lemma depth_set_parent [simp]:
  "i < length h \<Longrightarrow> depth (h[x := (h ! x)\<lparr>parent := q\<rparr>] ! i) = depth (h ! i)"
  by (cases "i = x") simp_all

lemma parent_set_parent [simp]:
  "i < length h \<Longrightarrow>
     parent (h[x := (h ! x)\<lparr>parent := q\<rparr>] ! i) = (if i = x then q else parent (h ! i))"
  by (cases "i = x") simp_all

lemma depth_le_Max: "i < length h \<Longrightarrow> depth (h ! i) \<le> Max (depth ` set h)"
  by (rule Max_ge) auto

lemma find_root_total:
  assumes ok: "heap_ok h"
  shows "n < length h \<Longrightarrow>
    \<exists>r. find_root h n = Some r \<and> r < length h \<and> parent (h ! r) = None \<and>
        depth (h ! n) \<le> depth (h ! r) \<and> (parent (h ! n) = None \<longrightarrow> r = n) \<and>
        (parent (h ! n) \<noteq> None \<longrightarrow> depth (h ! n) < depth (h ! r))"
proof (induction "nat (Max (depth ` set h) - depth (h ! n))" arbitrary: n rule: less_induct)
  case less
  show ?case
  proof (cases "parent (h ! n)")
    case None
    then show ?thesis using less.prems by (simp add: find_root_at_root)
  next
    case (Some p)
    have p: "p < length h" "depth (h ! n) < depth (h ! p)"
      using ok less.prems Some by (auto simp: heap_ok_def)
    have "depth (h ! p) \<le> Max (depth ` set h)" using p(1) by (rule depth_le_Max)
    then have "nat (Max (depth ` set h) - depth (h ! p)) < nat (Max (depth ` set h) - depth (h ! n))"
      using p(2) by linarith
    from less.hyps [OF this p(1)] obtain r where
      "find_root h p = Some r" "r < length h" "parent (h ! r) = None" "depth (h ! p) \<le> depth (h ! r)"
      by blast
    then show ?thesis using Some less.prems p by (auto simp: find_root_step)
  qed
qed

text \<open>Hanging the root \<open>lo\<close> below another node \<open>hi\<close>.\<close>
lemma find_root_link:
  assumes ok: "heap_ok h" and len: "length h' = length h"
    and par: "\<forall>i<length h. parent (h' ! i) = (if i = lo then Some hi else parent (h ! i))"
    and lo: "lo < length h" "parent (h ! lo) = None"
    and hi: "hi < length h" "parent (h ! hi) = None" "hi \<noteq> lo"
  shows "n < length h \<Longrightarrow>
     find_root h' n = (if find_root h n = Some lo then Some hi else find_root h n)"
proof (induction "nat (Max (depth ` set h) - depth (h ! n))" arbitrary: n rule: less_induct)
  case less
  show ?case
  proof (cases "parent (h ! n)")
    case None
    show ?thesis
    proof (cases "n = lo")
      case True
      have "parent (h' ! lo) = Some hi" using par lo by simp
      then have "find_root h' lo = find_root h' hi" using lo len by (simp add: find_root_step)
      moreover have "find_root h' hi = Some hi" using par hi len by (simp add: find_root_at_root)
      ultimately show ?thesis using True lo by (simp add: find_root_at_root)
    next
      case False
      then show ?thesis using None less.prems len par by (simp add: find_root_at_root)
    qed
  next
    case (Some p)
    then have nlo: "n \<noteq> lo" using lo by auto
    have p: "p < length h" "depth (h ! n) < depth (h ! p)"
      using ok less.prems Some by (auto simp: heap_ok_def)
    have "depth (h ! p) \<le> Max (depth ` set h)" using p(1) by (rule depth_le_Max)
    then have "nat (Max (depth ` set h) - depth (h ! p)) < nat (Max (depth ` set h) - depth (h ! n))"
      using p(2) by linarith
    from less.hyps [OF this p(1)]
    have "find_root h' p = (if find_root h p = Some lo then Some hi else find_root h p)" .
    then show ?thesis using Some less.prems len par nlo by (simp add: find_root_step)
  qed
qed

text \<open>Re-hanging a node directly below its own root.\<close>
lemma find_root_rehang:
  assumes ok: "heap_ok h" and len: "length h' = length h"
    and par: "\<forall>i<length h. parent (h' ! i) = (if i = x then Some r else parent (h ! i))"
    and x: "x < length h" "find_root h x = Some r" "x \<noteq> r"
  shows "find_root h' n = find_root h n"
proof (cases "n < length h")
  case False
  then show ?thesis using len by (simp add: find_root_invalid)
next
  case True
  from find_root_total [OF ok x(1)] x have r: "r < length h" "parent (h ! r) = None"
    by auto
  then have r': "find_root h' r = Some r" using par x len by (simp add: find_root_at_root)
  from True show ?thesis
  proof (induction "nat (Max (depth ` set h) - depth (h ! n))" arbitrary: n rule: less_induct)
    case less
    show ?case
    proof (cases "n = x")
      case True
      have "parent (h' ! x) = Some r" using par x by simp
      then have "find_root h' x = find_root h' r" using x len by (simp add: find_root_step)
      then show ?thesis using True r' x by simp
    next
      case nx: False
      show ?thesis
      proof (cases "parent (h ! n)")
        case None
        then show ?thesis using nx less.prems len par by (simp add: find_root_at_root)
      next
        case (Some p)
        have p: "p < length h" "depth (h ! n) < depth (h ! p)"
          using ok less.prems Some by (auto simp: heap_ok_def)
        have "depth (h ! p) \<le> Max (depth ` set h)" using p(1) by (rule depth_le_Max)
        then have "nat (Max (depth ` set h) - depth (h ! p)) < nat (Max (depth ` set h) - depth (h ! n))"
          using p(2) by linarith
        from less.hyps [OF this p(1)] have "find_root h' p = find_root h p" .
        then show ?thesis using Some less.prems len par nx by (simp add: find_root_step)
      qed
    qed
  qed
qed

lemma heap_ok_rehang:
  assumes ok: "heap_ok h" and x: "x < length h" "find_root h x = Some r" "x \<noteq> r"
  shows "heap_ok (h[x := (h ! x)\<lparr>parent := Some r\<rparr>])"
proof -
  from find_root_total [OF ok x(1)] x
  have r: "r < length h" "depth (h ! x) < depth (h ! r)"
    by (auto simp: find_root_at_root)
  show ?thesis
    unfolding heap_ok_def
  proof (intro allI impI)
    fix i p
    assume i: "i < length (h[x := (h ! x)\<lparr>parent := Some r\<rparr>])"
      and p: "parent (h[x := (h ! x)\<lparr>parent := Some r\<rparr>] ! i) = Some p"
    show "p < length (h[x := (h ! x)\<lparr>parent := Some r\<rparr>]) \<and>
          depth (h[x := (h ! x)\<lparr>parent := Some r\<rparr>] ! i)
            < depth (h[x := (h ! x)\<lparr>parent := Some r\<rparr>] ! p)"
    proof (cases "i = x")
      case True
      then show ?thesis using i p r x by auto
    next
      case False
      then have "parent (h ! i) = Some p" using i p by simp
      then have "p < length h \<and> depth (h ! i) < depth (h ! p)"
        using ok i by (auto simp: heap_ok_def)
      then show ?thesis using i by auto
    qed
  qed
qed

lemma same_data_refl: "same_data h h"
  by (simp add: same_data_def)

lemma same_data_trans: "same_data h h' \<Longrightarrow> same_data h' h'' \<Longrightarrow> same_data h h''"
  by (auto simp: same_data_def)

lemma compress_total:
  assumes bound: "\<forall>i<length h. depth (h ! i) \<le> M"
  shows "heap_ok h \<Longrightarrow> n < length h \<Longrightarrow> find_root h n = Some ans \<Longrightarrow> n \<noteq> ans \<Longrightarrow>
    \<exists>h'. compress h n ans = Some h' \<and> heap_ok h' \<and> same_data h h' \<and>
         (\<forall>m. find_root h' m = find_root h m)"
  using bound
proof (induction "nat (M - depth (h ! n))" arbitrary: h n rule: less_induct)
  case less
  from find_root_total [OF less.prems(1,2)] less.prems(3,4)
  obtain tmp where tmp: "parent (h ! n) = Some tmp"
    by (cases "parent (h ! n)") auto
  show ?case
  proof (cases "tmp = ans")
    case True
    then have "compress h n ans = Some h" using tmp less.prems(2)
      by (subst compress.simps) simp
    then show ?thesis using less.prems(1) by (simp add: same_data_refl)
  next
    case False
    let ?h = "h[n := (h ! n)\<lparr>parent := Some ans\<rparr>]"
    have c: "compress h n ans = compress ?h tmp ans" using tmp less.prems(2) False
      by (subst compress.simps) simp
    have ok': "heap_ok ?h" using less.prems by (intro heap_ok_rehang)
    have fr: "find_root ?h m = find_root h m" for m
      by (rule find_root_rehang [OF less.prems(1) _ _ less.prems(2,3,4)])
         auto
    have t: "tmp < length h" "depth (h ! n) < depth (h ! tmp)"
      using less.prems(1,2) tmp by (auto simp: heap_ok_def)
    have t2: "find_root h tmp = Some ans" using less.prems tmp by (simp add: find_root_step)
    have b': "\<forall>i<length ?h. depth (?h ! i) \<le> M" using less.prems(5) by simp
    have "nat (M - depth (?h ! tmp)) < nat (M - depth (h ! n))"
      using t less.prems(5) by auto
    from less.hyps [OF this ok' _ _ False b'] t t2 fr
    obtain h' where h': "compress ?h tmp ans = Some h'" "heap_ok h'" "same_data ?h h'"
      "\<forall>m. find_root h' m = find_root ?h m" by auto
    have "same_data h ?h" using tmp by (auto simp: same_data_def nth_list_update)
    then have "same_data h h'" using h'(3) by (rule same_data_trans)
    then show ?thesis using c h' fr by simp
  qed
qed

lemma root_total:
  assumes ok: "heap_ok h" and n: "n < length h"
  shows "\<exists>h' r. root h n = Some (h', r) \<and> find_root h n = Some r \<and> heap_ok h' \<and>
           same_data h h' \<and> (\<forall>m. find_root h' m = find_root h m)"
proof -
  from find_root_total [OF ok n] obtain r where r: "find_root h n = Some r" by blast
  show ?thesis
  proof (cases "n = r")
    case True
    then show ?thesis using r ok by (simp add: root_def same_data_refl)
  next
    case False
    have "\<forall>i<length h. depth (h ! i) \<le> Max (depth ` set h)" by (simp add: depth_le_Max)
    from compress_total [OF this ok n r False] show ?thesis
      using r False by (auto simp: root_def)
  qed
qed

lemma heap_ok_relink:
  assumes ok: "heap_ok h" and len: "length h' = length h"
    and par: "\<forall>i<length h. parent (h' ! i) = (if i = lo then Some hi else parent (h ! i))"
    and mono: "\<forall>i<length h. depth (h ! i) \<le> depth (h' ! i)"
    and inner: "\<forall>i<length h. parent (h ! i) \<noteq> None \<longrightarrow> depth (h' ! i) = depth (h ! i)"
    and lo: "parent (h ! lo) = None" and hi: "hi < length h" "depth (h' ! lo) < depth (h' ! hi)"
  shows "heap_ok h'"
  unfolding heap_ok_def
proof (intro allI impI)
  fix i p
  assume i: "i < length h'" and p: "parent (h' ! i) = Some p"
  show "p < length h' \<and> depth (h' ! i) < depth (h' ! p)"
  proof (cases "i = lo")
    case True
    then show ?thesis using i p par hi len by simp
  next
    case False
    then have q: "parent (h ! i) = Some p" using i p par len by simp
    then have "p < length h" "depth (h ! i) < depth (h ! p)"
      using ok i len by (auto simp: heap_ok_def)
    moreover have "depth (h' ! i) = depth (h ! i)" using inner i len q by simp
    moreover have "depth (h ! p) \<le> depth (h' ! p)" using mono \<open>p < length h\<close> by simp
    ultimately show ?thesis using len by simp
  qed
qed

lemma take_min_simps [simp]:
  "length (take_min h lo hi) = length h"
  "i < length h \<Longrightarrow> parent (take_min h lo hi ! i) = parent (h ! i)"
  "i < length h \<Longrightarrow> depth (take_min h lo hi ! i) = depth (h ! i)"
  "i < length h \<Longrightarrow> sig (take_min h lo hi ! i) = sig (h ! i)"
  by (cases "i = hi"; simp add: take_min_def)+

lemma take_min_smallest:
  "hi < length h \<Longrightarrow>
     smallest (take_min h lo hi ! hi) = min (smallest (h ! lo)) (smallest (h ! hi))"
  "hi < length h \<Longrightarrow>
     minimal (take_min h lo hi ! hi) =
       (if smallest (h ! lo) < smallest (h ! hi) then minimal (h ! lo) else minimal (h ! hi))"
  "i \<noteq> hi \<Longrightarrow> take_min h lo hi ! i = h ! i"
  by (auto simp: take_min_def)

lemma linked_plain:
  assumes ok: "heap_ok h" and lo: "lo < length h" "parent (h ! lo) = None"
    and hi: "hi < length h" "parent (h ! hi) = None" "hi \<noteq> lo"
    and d: "depth (h ! lo) < depth (h ! hi)"
  shows "linked h (take_min (h[lo := (h ! lo)\<lparr>parent := Some hi\<rparr>]) lo hi) lo hi"
proof -
  let ?h1 = "h[lo := (h ! lo)\<lparr>parent := Some hi\<rparr>]"
  let ?h' = "take_min ?h1 lo hi"
  have par: "\<forall>i<length h. parent (?h' ! i) = (if i = lo then Some hi else parent (h ! i))"
    by simp
  have "heap_ok ?h'"
    by (rule heap_ok_relink [OF ok _ par _ _ lo(2) hi(1)]) (use lo hi d in auto)
  moreover have "\<forall>m<length h. find_root ?h' m = (if find_root h m = Some lo then Some hi else find_root h m)"
    using find_root_link [OF ok _ par lo hi] by simp
  ultimately show ?thesis using lo hi
    by (auto simp: linked_def take_min_smallest nth_list_update)
qed

lemma linked_bump:
  assumes ok: "heap_ok h" and lo: "lo < length h" "parent (h ! lo) = None"
    and hi: "hi < length h" "parent (h ! hi) = None" "hi \<noteq> lo"
    and d: "depth (h ! lo) = depth (h ! hi)"
  shows "linked h
     (take_min ((h[lo := (h ! lo)\<lparr>parent := Some hi\<rparr>])
        [hi := (h[lo := (h ! lo)\<lparr>parent := Some hi\<rparr>] ! hi)
                \<lparr>depth := depth (h[lo := (h ! lo)\<lparr>parent := Some hi\<rparr>] ! hi) + 1\<rparr>]) lo hi) lo hi"
proof -
  let ?h1 = "h[lo := (h ! lo)\<lparr>parent := Some hi\<rparr>]"
  let ?h2 = "?h1[hi := (?h1 ! hi)\<lparr>depth := depth (?h1 ! hi) + 1\<rparr>]"
  let ?h' = "take_min ?h2 lo hi"
  have par: "\<forall>i<length h. parent (?h' ! i) = (if i = lo then Some hi else parent (h ! i))"
    using hi by (simp add: nth_list_update)
  have "heap_ok ?h'"
    by (rule heap_ok_relink [OF ok _ par _ _ lo(2) hi(1)])
       (use lo hi d in \<open>auto simp: nth_list_update\<close>)
  moreover have "\<forall>m<length h. find_root ?h' m = (if find_root h m = Some lo then Some hi else find_root h m)"
    using find_root_link [OF ok _ par lo hi] by simp
  ultimately show ?thesis using lo hi
    by (auto simp: linked_def take_min_smallest nth_list_update)
qed

lemma join_total:
  assumes ok: "heap_ok h" and a: "a < length h" and b: "b < length h"
  shows "\<exists>h2 ra rb. find_root h a = Some ra \<and> find_root h b = Some rb \<and>
           ra < length h \<and> rb < length h \<and> heap_ok h2 \<and> same_data h h2 \<and>
           (\<forall>m. find_root h2 m = find_root h m) \<and>
           (if ra = rb then join h a b = Some (h2, False)
            else \<exists>h' lo hi. join h a b = Some (h', True) \<and>
                   ((lo = ra \<and> hi = rb) \<or> (lo = rb \<and> hi = ra)) \<and> linked h2 h' lo hi)"
proof -
  from root_total [OF ok a] obtain h1 ra where
    1: "root h a = Some (h1, ra)" "find_root h a = Some ra" "heap_ok h1" "same_data h h1"
       "\<forall>m. find_root h1 m = find_root h m" by blast
  have len1: "length h1 = length h" using 1(4) by (simp add: same_data_def)
  from root_total [OF 1(3), of b] b len1 obtain h2 rb where
    2: "root h1 b = Some (h2, rb)" "find_root h1 b = Some rb" "heap_ok h2" "same_data h1 h2"
       "\<forall>m. find_root h2 m = find_root h1 m" by auto
  have sd: "same_data h h2" using 1(4) 2(4) by (rule same_data_trans)
  have len2: "length h2 = length h" using sd by (simp add: same_data_def)
  have fr: "\<forall>m. find_root h2 m = find_root h m" using 1(5) 2(5) by simp
  have rb: "find_root h b = Some rb" using 1(5) 2(2) by simp
  from find_root_total [OF ok a] 1(2) have ra_root: "ra < length h" "parent (h ! ra) = None" by auto
  from find_root_total [OF ok b] rb have rb_root: "rb < length h" "parent (h ! rb) = None" by auto
  have ra2: "ra < length h2" "parent (h2 ! ra) = None"
    using ra_root sd by (auto simp: same_data_def)
  have rb2: "rb < length h2" "parent (h2 ! rb) = None"
    using rb_root sd by (auto simp: same_data_def)
  have j: "join h a b =
     (if ra = rb then Some (h2, False)
      else if depth (h2 ! ra) > depth (h2 ! rb) then
        Some (take_min (h2[rb := (h2 ! rb)\<lparr>parent := Some ra\<rparr>]) rb ra, True)
      else if depth (h2 ! rb) > depth (h2 ! ra) then
        Some (take_min (h2[ra := (h2 ! ra)\<lparr>parent := Some rb\<rparr>]) ra rb, True)
      else
        Some (take_min ((h2[ra := (h2 ! ra)\<lparr>parent := Some rb\<rparr>])
                [rb := (h2[ra := (h2 ! ra)\<lparr>parent := Some rb\<rparr>] ! rb)
                   \<lparr>depth := depth (h2[ra := (h2 ! ra)\<lparr>parent := Some rb\<rparr>] ! rb) + 1\<rparr>]) ra rb,
              True))"
    using 1(1) 2(1) by (simp add: join_def Let_def)
  show ?thesis
  proof (cases "ra = rb")
    case True
    then show ?thesis using j 1(2) rb ra_root rb_root 2(3) sd fr by auto
  next
    case ne: False
    consider (gt) "depth (h2 ! ra) > depth (h2 ! rb)" | (lt) "depth (h2 ! rb) > depth (h2 ! ra)"
      | (eq) "depth (h2 ! ra) = depth (h2 ! rb)" by linarith
    then have "\<exists>h' lo hi. join h a b = Some (h', True) \<and>
                   ((lo = ra \<and> hi = rb) \<or> (lo = rb \<and> hi = ra)) \<and> linked h2 h' lo hi"
    proof cases
      case gt
      have "linked h2 (take_min (h2[rb := (h2 ! rb)\<lparr>parent := Some ra\<rparr>]) rb ra) rb ra"
        using ne gt by (intro linked_plain [OF 2(3) rb2 ra2]) auto
      then show ?thesis using j ne gt by auto
    next
      case lt
      have "linked h2 (take_min (h2[ra := (h2 ! ra)\<lparr>parent := Some rb\<rparr>]) ra rb) ra rb"
        using ne lt by (intro linked_plain [OF 2(3) ra2 rb2]) auto
      then show ?thesis using j ne lt by auto
    next
      case eq
      have "linked h2 (take_min ((h2[ra := (h2 ! ra)\<lparr>parent := Some rb\<rparr>])
                [rb := (h2[ra := (h2 ! ra)\<lparr>parent := Some rb\<rparr>] ! rb)
                   \<lparr>depth := depth (h2[ra := (h2 ! ra)\<lparr>parent := Some rb\<rparr>] ! rb) + 1\<rparr>]) ra rb) ra rb"
        using ne eq by (intro linked_bump [OF 2(3) ra2 rb2]) auto
      then show ?thesis using j ne eq by auto
    qed
    then show ?thesis using ne 1(2) rb ra_root rb_root 2(3) sd fr by auto
  qed
qed

lemma connected_mono:
  "connected ops a b \<Longrightarrow> (\<And>x y. Join x y \<in> set ops \<Longrightarrow> Join x y \<in> set ops') \<Longrightarrow> connected ops' a b"
  by (induction rule: connected.induct) (auto intro: connected.intros)

lemma connected_bounded:
  "connected ops a b \<Longrightarrow> (\<And>x y. Join x y \<in> set ops \<Longrightarrow> x < n \<and> y < n) \<Longrightarrow>
     a = b \<or> (a < n \<and> b < n)"
  by (induction rule: connected.induct) auto

lemma find_root_append:
  assumes ok: "heap_ok h"
  shows "n < length h \<Longrightarrow> find_root (h @ [d]) n = find_root h n"
proof (induction "nat (Max (depth ` set h) - depth (h ! n))" arbitrary: n rule: less_induct)
  case less
  show ?case
  proof (cases "parent (h ! n)")
    case None
    then show ?thesis using less.prems by (simp add: find_root_at_root nth_append)
  next
    case (Some p)
    have p: "p < length h" "depth (h ! n) < depth (h ! p)"
      using ok less.prems Some by (auto simp: heap_ok_def)
    have "depth (h ! p) \<le> Max (depth ` set h)" using p(1) by (rule depth_le_Max)
    then have "nat (Max (depth ` set h) - depth (h ! p)) < nat (Max (depth ` set h) - depth (h ! n))"
      using p(2) by linarith
    from less.hyps [OF this p(1)] have "find_root (h @ [d]) p = find_root h p" .
    moreover have "find_root (h @ [d]) n = find_root (h @ [d]) p"
      using Some less.prems by (intro find_root_step) (auto simp: nth_append)
    ultimately show ?thesis using Some less.prems by (simp add: find_root_step)
  qed
qed

lemma heap_ok_new: "heap_ok h \<Longrightarrow> heap_ok (fst (new_Data h s))"
  unfolding heap_ok_def new_Data_def
  by (auto simp: nth_append less_Suc_eq)

lemma find_root_new:
  assumes ok: "heap_ok h"
  shows "find_root (fst (new_Data h s)) n =
           (if n < length h then find_root h n else if n = length h then Some n else None)"
  using find_root_append [OF ok]
  by (auto simp: new_Data_def find_root_at_root find_root_invalid)

lemma connected_snoc_New: "connected (ops @ [New s]) a b \<longleftrightarrow> connected ops a b"
  by (auto elim!: connected_mono)

lemma connected_snoc_Root: "connected (ops @ [Root n]) a b \<longleftrightarrow> connected ops a b"
  by (auto elim!: connected_mono)

lemma connected_snoc_Join_old:
  assumes ab: "connected ops a b"
  shows "connected (ops @ [Join a b]) x y \<longleftrightarrow> connected ops x y"
proof
  assume "connected (ops @ [Join a b]) x y"
  then show "connected ops x y"
    using ab by (induction rule: connected.induct) (auto intro: connected.intros)
next
  assume "connected ops x y"
  then show "connected (ops @ [Join a b]) x y" by (rule connected_mono) simp
qed

lemma tracks_New:
  assumes t: "tracks h ops"
  shows "tracks (fst (new_Data h s)) (ops @ [New s])"
proof -
  let ?h = "fst (new_Data h s)"
  have ok: "heap_ok h" and bnd: "\<And>x y. Join x y \<in> set ops \<Longrightarrow> x < length h \<and> y < length h"
    and rel: "\<And>a b. a < length h \<Longrightarrow> b < length h \<Longrightarrow>
                 find_root h a = find_root h b \<longleftrightarrow> connected ops a b"
    using t by (auto simp: tracks_def)
  have len: "length ?h = Suc (length h)" by (simp add: new_Data_def)
  have old: "find_root ?h a = find_root h a" if "a < length h" for a
    using that by (simp add: find_root_new [OF ok])
  have new: "find_root ?h (length h) = Some (length h)"
    by (simp add: find_root_new [OF ok])
  have below: "find_root h a \<noteq> Some (length h)" if "a < length h" for a
    using find_root_total [OF ok that] by auto
  have "find_root ?h a = find_root ?h b \<longleftrightarrow> connected ops a b"
    if a: "a < Suc (length h)" and b: "b < Suc (length h)" for a b
  proof (cases "a < length h"; cases "b < length h")
    assume "a < length h" "b < length h"
    then show ?thesis using rel old by simp
  next
    assume *: "a < length h" "\<not> b < length h"
    then have "b = length h" using b by simp
    moreover have "\<not> connected ops a (length h)"
      using connected_bounded [of ops a "length h" "length h"] bnd * by auto
    ultimately show ?thesis using * old new below [of a] by auto
  next
    assume *: "\<not> a < length h" "b < length h"
    then have "a = length h" using a by simp
    moreover have "\<not> connected ops (length h) b"
      using connected_bounded [of ops "length h" b "length h"] bnd * by auto
    ultimately show ?thesis using * old new below [of b] by auto
  next
    assume "\<not> a < length h" "\<not> b < length h"
    then have "a = b" using a b by simp
    then show ?thesis by (simp add: connected.same)
  qed
  then show ?thesis
    using heap_ok_new [OF ok] bnd len
    by (simp add: tracks_def connected_snoc_New less_Suc_eq)
qed

lemma tracks_Root:
  assumes t: "tracks h ops" and n: "n < length h"
  shows "\<exists>h' r. root h n = Some (h', r) \<and> tracks h' (ops @ [Root n]) \<and> length h' = length h"
proof -
  have ok: "heap_ok h" using t by (simp add: tracks_def)
  from root_total [OF ok n] obtain h' r where
    r: "root h n = Some (h', r)" "heap_ok h'" "same_data h h'" "\<forall>m. find_root h' m = find_root h m"
    by blast
  have "length h' = length h" using r(3) by (simp add: same_data_def)
  then show ?thesis using r t by (auto simp: tracks_def connected_snoc_Root)
qed

lemma tracks_Join:
  assumes t: "tracks h ops" and a: "a < length h" and b: "b < length h"
  shows "\<exists>h' r. join h a b = Some (h', r) \<and> tracks h' (ops @ [Join a b]) \<and> length h' = length h"
proof -
  have ok: "heap_ok h" and bnd: "\<And>x y. Join x y \<in> set ops \<Longrightarrow> x < length h \<and> y < length h"
    and rel: "\<And>x y. x < length h \<Longrightarrow> y < length h \<Longrightarrow>
                 find_root h x = find_root h y \<longleftrightarrow> connected ops x y"
    using t by (auto simp: tracks_def)
  from join_total [OF ok a b] obtain h2 ra rb where
    j: "find_root h a = Some ra" "find_root h b = Some rb" "heap_ok h2" "same_data h h2"
       "\<forall>m. find_root h2 m = find_root h m"
       "if ra = rb then join h a b = Some (h2, False)
        else \<exists>h' lo hi. join h a b = Some (h', True) \<and>
               ((lo = ra \<and> hi = rb) \<or> (lo = rb \<and> hi = ra)) \<and> linked h2 h' lo hi"
    by blast
  have len2: "length h2 = length h" using j(4) by (simp add: same_data_def)
  show ?thesis
  proof (cases "ra = rb")
    case True
    then have "connected ops a b" using rel [OF a b] j(1,2) by simp
    then have "connected (ops @ [Join a b]) x y \<longleftrightarrow> connected ops x y" for x y
      by (rule connected_snoc_Join_old)
    then have "tracks h2 (ops @ [Join a b])"
      using j(3,5) len2 bnd rel a b by (auto simp: tracks_def)
    then show ?thesis using True j(6) len2 by auto
  next
    case False
    then obtain h' lo hi where
      l: "join h a b = Some (h', True)" "(lo = ra \<and> hi = rb) \<or> (lo = rb \<and> hi = ra)"
         "linked h2 h' lo hi"
      using j(6) by auto
    have ok': "heap_ok h'" and len': "length h' = length h"
      and fr: "\<And>m. m < length h \<Longrightarrow>
                 find_root h' m = (if find_root h m = Some lo then Some hi else find_root h m)"
      using l(3) j(5) len2 by (auto simp: linked_def)
    have ab: "find_root h' a = find_root h' b"
      using fr [OF a] fr [OF b] j(1,2) l(2) False by auto
    have keep: "find_root h' x = find_root h' y"
      if "x < length h" "y < length h" "find_root h x = find_root h y" for x y
      using fr that by simp
    have sound: "x = y \<or> (x < length h \<and> y < length h \<and> find_root h' x = find_root h' y)"
      if "connected (ops @ [Join a b]) x y" for x y
      using that
    proof (induction rule: connected.induct)
      case (joined x y)
      show ?case
      proof (cases "Join x y \<in> set ops")
        case True
        then have "x < length h" "y < length h" "connected ops x y"
          using bnd by (auto intro: connected.joined)
        then show ?thesis using rel keep by auto
      next
        case False
        then have "x = a" "y = b" using joined by auto
        then show ?thesis using a b ab by simp
      qed
    qed auto
    have complete: "connected (ops @ [Join a b]) x y"
      if x: "x < length h" and y: "y < length h" and e: "find_root h' x = find_root h' y" for x y
    proof -
      have up: "connected (ops @ [Join a b]) u v" if "connected ops u v" for u v
        using that by (rule connected_mono) simp
      have jab: "connected (ops @ [Join a b]) a b" by (rule connected.joined) simp
      have cls: "connected (ops @ [Join a b]) u v"
        if "u < length h" "v < length h" "find_root h u = find_root h v" for u v
        using that rel up by simp
      have hi_ne: "hi \<noteq> lo" using l(2) False by auto
      consider (both) "find_root h x = Some lo" "find_root h y = Some lo"
        | (none) "find_root h x \<noteq> Some lo" "find_root h y \<noteq> Some lo"
        | (left) "find_root h x = Some lo" "find_root h y = Some hi"
        | (right) "find_root h x = Some hi" "find_root h y = Some lo"
        using e fr [OF x] fr [OF y] by (auto split: if_splits)
      then show ?thesis
      proof cases
        case both
        then show ?thesis using cls x y by simp
      next
        case none
        then show ?thesis using cls x y e fr [OF x] fr [OF y] by simp
      next
        case left
        from l(2) show ?thesis
        proof
          assume "lo = ra \<and> hi = rb"
          then have "connected (ops @ [Join a b]) x a" "connected (ops @ [Join a b]) b y"
            using left j(1,2) cls x y a b by auto
          then show ?thesis using jab by (blast intro: connected.trans)
        next
          assume "lo = rb \<and> hi = ra"
          then have "connected (ops @ [Join a b]) x b" "connected (ops @ [Join a b]) a y"
            using left j(1,2) cls x y a b by auto
          then show ?thesis using jab by (blast intro: connected.trans connected.sym)
        qed
      next
        case right
        from l(2) show ?thesis
        proof
          assume "lo = ra \<and> hi = rb"
          then have "connected (ops @ [Join a b]) x b" "connected (ops @ [Join a b]) a y"
            using right j(1,2) cls x y a b by auto
          then show ?thesis using jab by (blast intro: connected.trans connected.sym)
        next
          assume "lo = rb \<and> hi = ra"
          then have "connected (ops @ [Join a b]) x a" "connected (ops @ [Join a b]) b y"
            using right j(1,2) cls x y a b by auto
          then show ?thesis using jab by (blast intro: connected.trans)
        qed
      qed
    qed
    have "tracks h' (ops @ [Join a b])"
      unfolding tracks_def
    proof (intro conjI allI impI)
      show "heap_ok h'" by (rule ok')
    next
      fix x y assume "Join x y \<in> set (ops @ [Join a b])"
      then show "x < length h'" "y < length h'" using bnd a b len' by auto
    next
      fix x y assume "x < length h'" "y < length h'"
      then show "find_root h' x = find_root h' y \<longleftrightarrow> connected (ops @ [Join a b]) x y"
        using sound [of x y] complete [of x y] len' by auto
    qed
    then show ?thesis using l(1) len' by auto
  qed
qed

lemma run_tracks:
  "tracks h done \<Longrightarrow> ops_ok (length h) ops \<Longrightarrow>
     \<exists>h'. run ops h = Some h' \<and> tracks h' (done @ ops)"
proof (induction ops arbitrary: h "done")
  case Nil
  then show ?case by simp
next
  case (Cons x xs)
  show ?case
  proof (cases x)
    case (New s)
    have "tracks (fst (new_Data h s)) (done @ [New s])" using Cons.prems(1) by (rule tracks_New)
    moreover have "ops_ok (length (fst (new_Data h s))) xs"
      using Cons.prems(2) New by (simp add: new_Data_def)
    ultimately show ?thesis using Cons.IH [of "fst (new_Data h s)" "done @ [New s]"] New by simp
  next
    case (Join a b)
    then have ab: "a < length h" "b < length h" "ops_ok (length h) xs" using Cons.prems(2) by auto
    from tracks_Join [OF Cons.prems(1) ab(1,2)] obtain h' r where
      "join h a b = Some (h', r)" "tracks h' (done @ [Join a b])" "length h' = length h" by blast
    then show ?thesis using Cons.IH [of h' "done @ [Join a b]"] Join ab(3) by simp
  next
    case (Root n)
    then have n: "n < length h" "ops_ok (length h) xs" using Cons.prems(2) by auto
    from tracks_Root [OF Cons.prems(1) n(1)] obtain h' r where
      "root h n = Some (h', r)" "tracks h' (done @ [Root n])" "length h' = length h" by blast
    then show ?thesis using Cons.IH [of h' "done @ [Root n]"] Root n(2) by simp
  qed
qed

lemma min_ok_new: "min_ok h \<Longrightarrow> min_ok (fst (new_Data h s))"
  unfolding min_ok_def new_Data_def
  by (auto simp: nth_append less_Suc_eq)

lemma min_ok_same_data: "min_ok h \<Longrightarrow> same_data h h' \<Longrightarrow> min_ok h'"
  by (auto simp: min_ok_def same_data_def)

lemma min_ok_linked:
  assumes m: "min_ok h" and l: "linked h h' lo hi"
    and lo: "lo < length h" "parent (h ! lo) = None" and hi: "hi < length h" "parent (h ! hi) = None"
  shows "min_ok h'"
  unfolding min_ok_def
proof (intro allI impI)
  fix r assume r: "r < length h'" "parent (h' ! r) = None"
  have len: "length h' = length h" using l by (simp add: linked_def)
  have sg: "\<And>i. i < length h \<Longrightarrow> sig (h' ! i) = sig (h ! i)" using l by (simp add: linked_def)
  have rr: "parent (h ! r) = None" using l r len by (simp add: linked_def)
  show "minimal (h' ! r) < length h' \<and> proxy (sig (h' ! minimal (h' ! r))) = smallest (h' ! r)"
  proof (cases "r = hi")
    case True
    have "smallest (h' ! hi) = min (smallest (h ! lo)) (smallest (h ! hi))"
      "minimal (h' ! hi) =
         (if smallest (h ! lo) < smallest (h ! hi) then minimal (h ! lo) else minimal (h ! hi))"
      using l by (simp_all add: linked_def)
    moreover have "minimal (h ! lo) < length h" "proxy (sig (h ! minimal (h ! lo))) = smallest (h ! lo)"
      "minimal (h ! hi) < length h" "proxy (sig (h ! minimal (h ! hi))) = smallest (h ! hi)"
      using m lo hi by (auto simp: min_ok_def)
    ultimately show ?thesis using True len sg by auto
  next
    case False
    then have "smallest (h' ! r) = smallest (h ! r)" "minimal (h' ! r) = minimal (h ! r)"
      using l r len by (simp_all add: linked_def)
    moreover have "minimal (h ! r) < length h" "proxy (sig (h ! minimal (h ! r))) = smallest (h ! r)"
      using m r rr len by (auto simp: min_ok_def)
    ultimately show ?thesis using len sg by simp
  qed
qed

lemma run_ok:
  "heap_ok h \<Longrightarrow> min_ok h \<Longrightarrow> ops_ok (length h) ops \<Longrightarrow> run ops h = Some h' \<Longrightarrow>
     heap_ok h' \<and> min_ok h'"
proof (induction ops arbitrary: h)
  case Nil
  then show ?case by simp
next
  case (Cons x xs)
  show ?case
  proof (cases x)
    case (New s)
    then show ?thesis
      using Cons.IH [of "fst (new_Data h s)"] Cons.prems heap_ok_new [of h s] min_ok_new [of h s]
      by (simp add: new_Data_def)
  next
    case (Join a b)
    then have ab: "a < length h" "b < length h" "ops_ok (length h) xs" using Cons.prems(3) by auto
    from join_total [OF Cons.prems(1) ab(1,2)] obtain h2 ra rb where
      j: "find_root h a = Some ra" "find_root h b = Some rb" "heap_ok h2" "same_data h h2"
         "if ra = rb then join h a b = Some (h2, False)
          else \<exists>h' lo hi. join h a b = Some (h', True) \<and>
               ((lo = ra \<and> hi = rb) \<or> (lo = rb \<and> hi = ra)) \<and> linked h2 h' lo hi"
      by blast
    have m2: "min_ok h2" using Cons.prems(2) j(4) by (rule min_ok_same_data)
    have len2: "length h2 = length h" using j(4) by (simp add: same_data_def)
    from find_root_total [OF Cons.prems(1) ab(1)] j(1)
    have ra: "ra < length h2" "parent (h2 ! ra) = None" using j(4) by (auto simp: same_data_def)
    from find_root_total [OF Cons.prems(1) ab(2)] j(2)
    have rb: "rb < length h2" "parent (h2 ! rb) = None" using j(4) by (auto simp: same_data_def)
    obtain h1 r where h1: "join h a b = Some (h1, r)" "heap_ok h1" "min_ok h1" "length h1 = length h"
    proof (cases "ra = rb")
      case True
      then show ?thesis using that [of h2 False] j(3,5) m2 len2 by simp
    next
      case False
      then obtain h3 lo hi where
        l: "join h a b = Some (h3, True)" "(lo = ra \<and> hi = rb) \<or> (lo = rb \<and> hi = ra)"
           "linked h2 h3 lo hi"
        using j(5) by auto
      have "min_ok h3" using l(2) ra rb by (intro min_ok_linked [OF m2 l(3)]) auto
      then show ?thesis using that [of h3 True] l len2 by (auto simp: linked_def)
    qed
    then show ?thesis using Cons.IH [of h1] Cons.prems(4) Join ab(3) by simp
  next
    case (Root n)
    then have n: "n < length h" "ops_ok (length h) xs" using Cons.prems(3) by auto
    from root_total [OF Cons.prems(1) n(1)] obtain h1 r where
      r: "root h n = Some (h1, r)" "heap_ok h1" "same_data h h1" by blast
    have "min_ok h1" using Cons.prems(2) r(3) by (rule min_ok_same_data)
    moreover have "length h1 = length h" using r(3) by (simp add: same_data_def)
    ultimately show ?thesis using Cons.IH [of h1] Cons.prems(4) Root n(2) r by simp
  qed
qed

section \<open>Connectivity is what the joins say\<close>

lemma tracks_empty: "tracks [] []"
  by (auto simp: tracks_def heap_ok_def)

text \<open>
  C1. Start from the empty heap and run any sequence of allocations, \<open>join\<close> calls and
  \<open>root\<close> calls on valid pointers. The run returns; in the heap \<open>h\<close> it leaves,
  calling \<open>root\<close> on \<open>a\<close> and then on \<open>b\<close> returns the same node exactly when
  \<open>a\<close> and \<open>b\<close> are connected by a chain of the joins made; and one more call of
  \<open>root\<close> on any node leaves the root of every node as it was.
\<close>

theorem root_eq_iff_connected:
  assumes "ops_ok 0 ops"
  shows "\<exists>h. run ops [] = Some h \<and>
           (\<forall>a<length h. \<forall>b<length h.
              \<exists>h1 ra h2 rb. root h a = Some (h1, ra) \<and> root h1 b = Some (h2, rb) \<and>
                (ra = rb \<longleftrightarrow> connected ops a b)) \<and>
           (\<forall>n<length h. \<exists>h' r. root h n = Some (h', r) \<and>
              (\<forall>m. find_root h' m = find_root h m))"
proof -
  from run_tracks [OF tracks_empty, of ops] assms obtain h where
    h: "run ops [] = Some h" "tracks h ops" by auto
  have ok: "heap_ok h" using h(2) by (simp add: tracks_def)
  have rel: "\<And>a b. a < length h \<Longrightarrow> b < length h \<Longrightarrow>
                find_root h a = find_root h b \<longleftrightarrow> connected ops a b"
    using h(2) by (simp add: tracks_def)
  have one: "\<exists>h' r. root h n = Some (h', r) \<and> (\<forall>m. find_root h' m = find_root h m)"
    if "n < length h" for n
    using root_total [OF ok that] by blast
  have two: "\<exists>h1 ra h2 rb. root h a = Some (h1, ra) \<and> root h1 b = Some (h2, rb) \<and>
                (ra = rb \<longleftrightarrow> connected ops a b)"
    if a: "a < length h" and b: "b < length h" for a b
  proof -
    from root_total [OF ok a] obtain h1 ra where
      1: "root h a = Some (h1, ra)" "find_root h a = Some ra" "heap_ok h1" "same_data h h1"
         "\<forall>m. find_root h1 m = find_root h m" by blast
    have "b < length h1" using b 1(4) by (simp add: same_data_def)
    from root_total [OF 1(3) this] obtain h2 rb where
      2: "root h1 b = Some (h2, rb)" "find_root h1 b = Some rb" by blast
    have "ra = rb \<longleftrightarrow> connected ops a b" using rel [OF a b] 1(2,5) 2(2) by simp
    then show ?thesis using 1(1) 2(1) by blast
  qed
  show ?thesis using h(1) one two by blast
qed

theorem root_eq_iff_connected_witness:
  "ops_ok 0 [New ''cA'', New ''bB'', New ''cC'', Join 0 1, Root 0] \<and>
   (\<exists>h. run [New ''cA'', New ''bB'', New ''cC'', Join 0 1, Root 0] [] = Some h \<and>
      (\<forall>a<length h. \<forall>b<length h.
         \<exists>h1 ra h2 rb. root h a = Some (h1, ra) \<and> root h1 b = Some (h2, rb) \<and>
           (ra = rb \<longleftrightarrow> connected [New ''cA'', New ''bB'', New ''cC'', Join 0 1, Root 0] a b)) \<and>
      (\<forall>n<length h. \<exists>h' r. root h n = Some (h', r) \<and>
         (\<forall>m. find_root h' m = find_root h m)))"
  using root_eq_iff_connected [of "[New ''cA'', New ''bB'', New ''cC'', Join 0 1, Root 0]"]
  by simp

section \<open>The minimum kept at the surviving root\<close>


text \<open>
  C8. In any heap built by allocations, joins and root calls, take a call of \<open>join\<close>
  that returns true. The two arguments had distinct roots \<open>ra\<close> and \<open>rb\<close>; afterwards
  both have the same root \<open>s\<close>, one of the two, the other one \<open>l\<close> hanging below it.
  The survivor's \<open>smallest\<close> is the minimum of the two former values, its \<open>minimal\<close> is
  the reference of the side that had the strictly smaller value (its own on a tie), and
  the signature of the node it points at has exactly that proxy.
\<close>

theorem join_recomputes_minimum:
  assumes "ops_ok 0 ops" and "run ops [] = Some h" and "a < length h" and "b < length h"
    and "join h a b = Some (h', True)"
  shows "\<exists>ra rb s l. find_root h a = Some ra \<and> find_root h b = Some rb \<and> ra \<noteq> rb \<and>
           ((s = ra \<and> l = rb) \<or> (s = rb \<and> l = ra)) \<and>
           find_root h' a = Some s \<and> find_root h' b = Some s \<and> parent (h' ! s) = None \<and>
           smallest (h' ! s) = min (smallest (h ! ra)) (smallest (h ! rb)) \<and>
           minimal (h' ! s) =
             (if smallest (h ! l) < smallest (h ! s) then minimal (h ! l) else minimal (h ! s)) \<and>
           proxy (sig (h' ! minimal (h' ! s))) = smallest (h' ! s)"
proof -
  have "heap_ok []" "min_ok []" by (simp_all add: heap_ok_def min_ok_def)
  from run_ok [OF this _ assms(2)] assms(1) have ok: "heap_ok h" and m: "min_ok h" by auto
  from join_total [OF ok assms(3,4)] obtain h2 ra rb where
    j: "find_root h a = Some ra" "find_root h b = Some rb" "ra < length h" "rb < length h"
       "heap_ok h2" "same_data h h2"
       "if ra = rb then join h a b = Some (h2, False)
        else \<exists>h' lo hi. join h a b = Some (h', True) \<and>
               ((lo = ra \<and> hi = rb) \<or> (lo = rb \<and> hi = ra)) \<and> linked h2 h' lo hi"
       "\<forall>m. find_root h2 m = find_root h m"
    by blast
  have ne: "ra \<noteq> rb" using j(7) assms(5) by auto
  then obtain lo hi where
    l: "(lo = ra \<and> hi = rb) \<or> (lo = rb \<and> hi = ra)" "linked h2 h' lo hi"
    using j(7) assms(5) by auto
  have len2: "length h2 = length h" using j(6) by (simp add: same_data_def)
  have f2: "\<And>i. i < length h \<Longrightarrow> smallest (h2 ! i) = smallest (h ! i) \<and>
              minimal (h2 ! i) = minimal (h ! i) \<and> (parent (h2 ! i) = None \<longleftrightarrow> parent (h ! i) = None)"
    using j(6) by (simp add: same_data_def)
  have m2: "min_ok h2" using m j(6) by (rule min_ok_same_data)
  from find_root_total [OF ok assms(3)] j(1) have pa: "parent (h ! ra) = None" by auto
  from find_root_total [OF ok assms(4)] j(2) have pb: "parent (h ! rb) = None" by auto
  have lohi: "lo < length h" "hi < length h" "parent (h2 ! lo) = None" "parent (h2 ! hi) = None"
    "hi \<noteq> lo"
    using l(1) j(3,4) pa pb f2 ne by auto
  have m': "min_ok h'" using lohi len2 by (intro min_ok_linked [OF m2 l(2)]) auto
  have len': "length h' = length h" using l(2) len2 by (simp add: linked_def)
  have ph: "parent (h' ! hi) = None" using l(2) lohi len2 by (simp add: linked_def)
  have fr: "\<And>x. x < length h \<Longrightarrow>
              find_root h' x = (if find_root h x = Some lo then Some hi else find_root h x)"
    using l(2) j(8) len2 by (simp add: linked_def)
  have "find_root h' a = Some hi" "find_root h' b = Some hi"
    using fr [OF assms(3)] fr [OF assms(4)] j(1,2) l(1) by auto
  moreover have "smallest (h' ! hi) = min (smallest (h ! ra)) (smallest (h ! rb))"
    using l lohi f2 by (auto simp: linked_def)
  moreover have "minimal (h' ! hi) =
      (if smallest (h ! lo) < smallest (h ! hi) then minimal (h ! lo) else minimal (h ! hi))"
    using l(2) lohi f2 by (simp add: linked_def)
  moreover have "proxy (sig (h' ! minimal (h' ! hi))) = smallest (h' ! hi)"
    using m' ph lohi len' by (simp add: min_ok_def)
  ultimately show ?thesis using j(1,2) ne l(1) ph by blast
qed

theorem join_recomputes_minimum_witness:
  "ops_ok 0 [New ''cA'', New ''bB'', New ''dC'', Join 0 2] \<and>
   run [New ''cA'', New ''bB'', New ''dC'', Join 0 2] [] =
     Some [\<lparr>sig = ''cA'', parent = Some 2, depth = 0, smallest = 2, minimal = 0\<rparr>,
           \<lparr>sig = ''bB'', parent = None, depth = 0, smallest = 1, minimal = 1\<rparr>,
           \<lparr>sig = ''dC'', parent = None, depth = 1, smallest = 2, minimal = 0\<rparr>] \<and>
   join [\<lparr>sig = ''cA'', parent = Some 2, depth = 0, smallest = 2, minimal = 0\<rparr>,
         \<lparr>sig = ''bB'', parent = None, depth = 0, smallest = 1, minimal = 1\<rparr>,
         \<lparr>sig = ''dC'', parent = None, depth = 1, smallest = 2, minimal = 0\<rparr>] 0 1 =
     Some ([\<lparr>sig = ''cA'', parent = Some 2, depth = 0, smallest = 2, minimal = 0\<rparr>,
            \<lparr>sig = ''bB'', parent = Some 2, depth = 0, smallest = 1, minimal = 1\<rparr>,
            \<lparr>sig = ''dC'', parent = None, depth = 1, smallest = 1, minimal = 1\<rparr>], True) \<and>
   (\<exists>ra rb s l.
      find_root [\<lparr>sig = ''cA'', parent = Some 2, depth = 0, smallest = 2, minimal = 0\<rparr>,
                 \<lparr>sig = ''bB'', parent = None, depth = 0, smallest = 1, minimal = 1\<rparr>,
                 \<lparr>sig = ''dC'', parent = None, depth = 1, smallest = 2, minimal = 0\<rparr>] 0 = Some ra \<and>
      find_root [\<lparr>sig = ''cA'', parent = Some 2, depth = 0, smallest = 2, minimal = 0\<rparr>,
                 \<lparr>sig = ''bB'', parent = None, depth = 0, smallest = 1, minimal = 1\<rparr>,
                 \<lparr>sig = ''dC'', parent = None, depth = 1, smallest = 2, minimal = 0\<rparr>] 1 = Some rb \<and>
      ra \<noteq> rb \<and> ((s = ra \<and> l = rb) \<or> (s = rb \<and> l = ra)) \<and>
      smallest ([\<lparr>sig = ''cA'', parent = Some 2, depth = 0, smallest = 2, minimal = 0\<rparr>,
                 \<lparr>sig = ''bB'', parent = Some 2, depth = 0, smallest = 1, minimal = 1\<rparr>,
                 \<lparr>sig = ''dC'', parent = None, depth = 1, smallest = 1, minimal = 1\<rparr>] ! s) =
        min (smallest ([\<lparr>sig = ''cA'', parent = Some 2, depth = 0, smallest = 2, minimal = 0\<rparr>,
                        \<lparr>sig = ''bB'', parent = None, depth = 0, smallest = 1, minimal = 1\<rparr>,
                        \<lparr>sig = ''dC'', parent = None, depth = 1, smallest = 2, minimal = 0\<rparr>] ! ra))
            (smallest ([\<lparr>sig = ''cA'', parent = Some 2, depth = 0, smallest = 2, minimal = 0\<rparr>,
                        \<lparr>sig = ''bB'', parent = None, depth = 0, smallest = 1, minimal = 1\<rparr>,
                        \<lparr>sig = ''dC'', parent = None, depth = 1, smallest = 2, minimal = 0\<rparr>] ! rb)))"
proof -
  let ?ops = "[New ''cA'', New ''bB'', New ''dC'', Join 0 2]"
  let ?h = "[\<lparr>sig = ''cA'', parent = Some 2, depth = 0, smallest = 2, minimal = 0\<rparr>,
             \<lparr>sig = ''bB'', parent = None, depth = 0, smallest = 1, minimal = 1\<rparr>,
             \<lparr>sig = ''dC'', parent = None, depth = 1, smallest = 2, minimal = 0\<rparr>]"
  let ?h' = "[\<lparr>sig = ''cA'', parent = Some 2, depth = 0, smallest = 2, minimal = 0\<rparr>,
              \<lparr>sig = ''bB'', parent = Some 2, depth = 0, smallest = 1, minimal = 1\<rparr>,
              \<lparr>sig = ''dC'', parent = None, depth = 1, smallest = 1, minimal = 1\<rparr>]"
  have 1: "ops_ok 0 ?ops" by simp
  have 2: "run ?ops [] = Some ?h" by code_simp
  have 3: "(0::nat) < length ?h" "(1::nat) < length ?h" by simp_all
  have 4: "join ?h 0 1 = Some (?h', True)" by code_simp
  from join_recomputes_minimum [OF 1 2 3 4] show ?thesis using 1 2 4 by blast
qed

section \<open>Properties of the reader\<close>

lemma join_ok:
  assumes ok: "heap_ok h" and a: "a < length h" and b: "b < length h"
  shows "\<exists>h' r. join h a b = Some (h', r) \<and> heap_ok h' \<and> length h' = length h \<and>
           (\<forall>i<length h. sig (h' ! i) = sig (h ! i))"
proof -
  from join_total [OF ok a b] obtain h2 ra rb where
    j: "heap_ok h2" "same_data h h2"
       "if ra = rb then join h a b = Some (h2, False)
        else \<exists>h' lo hi. join h a b = Some (h', True) \<and>
               ((lo = ra \<and> hi = rb) \<or> (lo = rb \<and> hi = ra)) \<and> linked h2 h' lo hi"
    by blast
  show ?thesis
  proof (cases "ra = rb")
    case True
    then show ?thesis using j by (auto simp: same_data_def)
  next
    case False
    then obtain h' lo hi where "join h a b = Some (h', True)" "linked h2 h' lo hi"
      using j(3) by auto
    then show ?thesis using j(2) by (auto simp: linked_def same_data_def)
  qed
qed

lemma keys_map_insert: "fst ` set (map_insert k v m) = insert k (fst ` set m)"
proof (induction m)
  case Nil
  then show ?case by simp
next
  case (Cons x m)
  obtain k' v' where x: "x = (k', v')" by (cases x)
  show ?case using Cons.IH unfolding x by (simp add: insert_commute)
qed

lemma map_of_map_assign: "map_of (map_assign k v m) = (map_of m)(k \<mapsto> v)"
  by (induction m) (auto simp: fun_eq_iff)

lemma map_get_map_assign: "map_get (map_assign k v m) k' d = (if k' = k then v else map_get m k' d)"
  by (simp add: map_get_def map_of_map_assign)

lemma read_members_total:
  "heap_ok h \<Longrightarrow> d < length h \<Longrightarrow>
     \<exists>h' g'. read_members d ss (h, g) = Some (h', g') \<and> heap_ok h' \<and> length h \<le> length h' \<and>
            fst ` set g' = fst ` set g \<union> set ss"
proof (induction ss arbitrary: h g)
  case Nil
  then show ?case by simp
next
  case (Cons s ss)
  let ?h1 = "fst (new_Data h s)"
  have ok1: "heap_ok ?h1" using Cons.prems(1) by (rule heap_ok_new)
  have len1: "length ?h1 = Suc (length h)" by (simp add: new_Data_def)
  from join_ok [OF ok1, of d "length h"] Cons.prems(2) len1 obtain h2 r where
    j: "join ?h1 d (length h) = Some (h2, r)" "heap_ok h2" "length h2 = Suc (length h)"
    by auto
  from Cons.IH [OF j(2), of "map_insert s (length h) g"] Cons.prems(2) j(3)
  obtain h' g' where
    "read_members d ss (h2, map_insert s (length h) g) = Some (h', g')" "heap_ok h'"
    "length h2 \<le> length h'" "fst ` set g' = fst ` set (map_insert s (length h) g) \<union> set ss"
    by auto
  then show ?case using j by (auto simp: new_Data_def keys_map_insert)
qed

lemma read_line_total:
  assumes ok: "heap_ok (rheap st)"
    and eng: "data_line line \<Longrightarrow> fromIsoSig eng (hd (tokens line)) \<noteq> None"
  shows "\<exists>st'. read_line eng st line = Some st' \<and> heap_ok (rheap st') \<and>
           rmaxN st' = (if data_line line then max (rmaxN st) (proxy (hd (tokens line))) else rmaxN st)"
proof (cases "data_line line")
  case False
  then show ?thesis using ok
    by (auto simp: read_line_def data_line_def split: list.splits)
next
  case True
  then obtain s rest where t: "tokens line = s # rest" "\<not> is_header line" "s \<noteq> ''#q''"
    by (cases "tokens line") (auto simp: data_line_def)
  from eng True t obtain tri where tri: "fromIsoSig eng s = Some tri" by auto
  define st1 where "st1 = (if proxy s > rmaxN st then st\<lparr>rmaxN := proxy s\<rparr> else st)"
  have m1: "rmaxN st1 = max (rmaxN st) (proxy s)" and h1: "rheap st1 = rheap st"
    by (auto simp: st1_def)
  show ?thesis
  proof (cases "snd (intelligentSimplify eng tri)")
    case True
    then have "read_line eng st line = Some st1"
      using t tri by (simp add: read_line_def st1_def)
    then show ?thesis using m1 h1 ok \<open>data_line line\<close> t by simp
  next
    case False
    let ?h1 = "fst (new_Data (rheap st1) s)"
    let ?g1 = "map_insert s (length (rheap st1)) (map_get (rgraphs st1) (rcur st1) [])"
    have "heap_ok ?h1" using ok h1 by (simp add: heap_ok_new)
    from read_members_total [OF this, of "length (rheap st1)" rest ?g1]
    obtain h2 g2 where r: "read_members (length (rheap st1)) rest (?h1, ?g1) = Some (h2, g2)"
      "heap_ok h2" by (auto simp: new_Data_def)
    have "read_line eng st line =
          Some (st1\<lparr>rheap := h2, rgraphs := map_assign (rcur st1) g2 (rgraphs st1),
                    rnComp := map_assign (rcur st1) (map_get (rnComp st1) (rcur st1) 0 + 1) (rnComp st1)\<rparr>)"
      using t tri False r(1)
      by (simp add: read_line_def st1_def [symmetric] Let_def new_Data_def)
    then show ?thesis using m1 r(2) \<open>data_line line\<close> t by simp
  qed
qed

lemma read_lines_max:
  assumes eng: "\<forall>s \<in> set (data_first_tokens infile). fromIsoSig eng s \<noteq> None"
  shows "heap_ok (rheap st) \<Longrightarrow>
     \<exists>st'. read_lines eng infile st = Some st' \<and> heap_ok (rheap st') \<and>
        rmaxN st' = Max (insert (rmaxN st) (proxy ` set (data_first_tokens infile)))"
  using eng
proof (induction infile arbitrary: st)
  case Nil
  then show ?case by (simp add: data_first_tokens_def)
next
  case (Cons line lines)
  have dft: "data_first_tokens (line # lines) =
      (if data_line line then [hd (tokens line)] else []) @ data_first_tokens lines"
    by (simp add: data_first_tokens_def)
  have e: "data_line line \<Longrightarrow> fromIsoSig eng (hd (tokens line)) \<noteq> None"
    using Cons.prems(2) dft by simp
  from read_line_total [OF Cons.prems(1) e] obtain st1 where
    1: "read_line eng st line = Some st1" "heap_ok (rheap st1)"
       "rmaxN st1 = (if data_line line then max (rmaxN st) (proxy (hd (tokens line))) else rmaxN st)"
    by blast
  have "\<forall>s \<in> set (data_first_tokens lines). fromIsoSig eng s \<noteq> None"
    using Cons.prems(2) dft by simp
  from Cons.IH [OF 1(2) this] obtain st' where
    2: "read_lines eng lines st1 = Some st'" "heap_ok (rheap st')"
       "rmaxN st' = Max (insert (rmaxN st1) (proxy ` set (data_first_tokens lines)))"
    by blast
  have fin: "finite (proxy ` set (data_first_tokens lines))" by simp
  have "Max (insert (rmaxN st1) (proxy ` set (data_first_tokens lines))) =
        Max (insert (rmaxN st) (proxy ` set (data_first_tokens (line # lines))))"
  proof (cases "data_line line")
    case False
    then show ?thesis using 1(3) dft by simp
  next
    case True
    have "Max (insert (max (rmaxN st) (proxy (hd (tokens line)))) (proxy ` set (data_first_tokens lines)))
        = Max (insert (rmaxN st) (insert (proxy (hd (tokens line))) (proxy ` set (data_first_tokens lines))))"
    proof (cases "proxy ` set (data_first_tokens lines) = {}")
      case True
      then show ?thesis by (simp add: max.commute)
    next
      case False
      then show ?thesis using fin by (simp add: max.assoc)
    qed
    then show ?thesis using True 1(3) dft by simp
  qed
  then show ?case using 1(1) 2 by simp
qed

section \<open>What read returns\<close>

text \<open>
  C4, as the code has it. When the engine can parse the first token of every data line,
  \<open>read\<close> returns, and the value it returns is the greatest of 0 and the proxies of the
  first tokens of all data lines. The simplification test comes after the comparison, so
  a first token that is then dropped counts all the same, and the further tokens of a
  line, which do become nodes, never count.
\<close>

theorem read_returns_max_first_token:
  assumes "\<forall>s \<in> set (data_first_tokens infile). fromIsoSig eng s \<noteq> None"
  shows "\<exists>st. read eng infile = Some st \<and>
           rmaxN st = Max (insert 0 (proxy ` set (data_first_tokens infile)))"
proof -
  have "heap_ok (rheap \<lparr>rheap = [], rwaiting = [], rgraphs = [], rnComp = [], rmaxN = 0, rcur = ''#''\<rparr>)"
    by (simp add: heap_ok_def)
  from read_lines_max [OF assms this] show ?thesis
    by (auto simp: read_def)
qed

lemma toy_parses: "fromIsoSig toy_engine s \<noteq> None"
  by (simp add: toy_engine_def)

theorem read_returns_max_first_token_witness:
  "data_first_tokens [''bA dZ'', ''cS''] = [''bA'', ''cS''] \<and>
   fromIsoSig toy_engine ''bA'' = Some ''bA'' \<and> fromIsoSig toy_engine ''cS'' = Some ''cS'' \<and>
   (\<exists>st. read toy_engine [''bA dZ'', ''cS''] = Some st \<and>
      rmaxN st = Max (insert 0 (proxy ` set [''bA'', ''cS''])))"
proof -
  have 1: "data_first_tokens [''bA dZ'', ''cS''] = [''bA'', ''cS'']" by code_simp
  have 2: "fromIsoSig toy_engine ''bA'' = Some ''bA''" "fromIsoSig toy_engine ''cS'' = Some ''cS''"
    by (simp_all add: toy_engine_def)
  have "\<forall>s \<in> set (data_first_tokens [''bA dZ'', ''cS'']). fromIsoSig toy_engine s \<noteq> None"
    by (simp add: toy_parses)
  from read_returns_max_first_token [OF this] 1 2 show ?thesis by simp
qed

text \<open>
  C4 as stated fails: of the two lines \<open>bA\<close> and \<open>cS\<close> the second is dropped by the
  simplification test, the only node kept is \<open>bA\<close> with proxy 1, and \<open>read\<close> returns 2.
  And on the single line \<open>bA dZ\<close> both signatures are kept, \<open>dZ\<close> with proxy 3, and
  \<open>read\<close> returns 1.
\<close>

theorem read_max_counterexample:
  "map_option rmaxN (read toy_engine [''bA'', ''cS'']) = Some 2 \<and>
   map_option rgraphs (read toy_engine [''bA'', ''cS'']) = Some [(''#'', [(''bA'', 0)])] \<and>
   proxy ''bA'' = 1 \<and>
   map_option rmaxN (read toy_engine [''bA dZ'']) = Some 1 \<and>
   map_option rgraphs (read toy_engine [''bA dZ'']) = Some [(''#'', [(''bA'', 0), (''dZ'', 1)])] \<and>
   proxy ''dZ'' = 3"
  by code_simp

section \<open>Which signatures the reader tests\<close>

lemma read_members_keys:
  "read_members d ss (h, g) = Some (h', g') \<Longrightarrow> fst ` set g' = fst ` set g \<union> set ss"
proof (induction ss arbitrary: h g)
  case Nil
  then show ?case by simp
next
  case (Cons s ss)
  from Cons.prems obtain h2 r where
    "join (fst (new_Data h s)) d (snd (new_Data h s)) = Some (h2, r)"
    "read_members d ss (h2, map_insert s (snd (new_Data h s)) g) = Some (h', g')"
    by (auto simp: case_prod_unfold Let_def split: option.splits)
  from Cons.IH [OF this(2)] show ?case by (simp add: keys_map_insert)
qed

text \<open>
  C5, as the code has it. On a data line only the first token is put to the engine. When
  it simplifies, the line leaves heap and graphs as they were: neither the first token nor
  any further token of the line gets a node. When it does not, the first token and every
  further token of the line are keys of the current profile's graph afterwards, the
  further ones untested, and the graphs of the other profiles are as before.
\<close>

theorem read_line_tests_first_token_only:
  assumes "data_line line" and "tokens line = s # rest" and "fromIsoSig eng s = Some tri"
    and "read_line eng st line = Some st'"
  shows "if snd (intelligentSimplify eng tri)
         then rheap st' = rheap st \<and> rgraphs st' = rgraphs st
         else fst ` set (map_get (rgraphs st') (rcur st) []) =
                fst ` set (map_get (rgraphs st) (rcur st) []) \<union> {s} \<union> set rest \<and>
              (\<forall>p. p \<noteq> rcur st \<longrightarrow> map_get (rgraphs st') p [] = map_get (rgraphs st) p [])"
proof -
  have t: "\<not> is_header line" "s \<noteq> ''#q''" using assms(1,2) by (auto simp: data_line_def)
  define st1 where "st1 = (if proxy s > rmaxN st then st\<lparr>rmaxN := proxy s\<rparr> else st)"
  have s1: "rheap st1 = rheap st" "rgraphs st1 = rgraphs st" "rcur st1 = rcur st"
    by (auto simp: st1_def)
  show ?thesis
  proof (cases "snd (intelligentSimplify eng tri)")
    case True
    then have "st' = st1" using assms t by (simp add: read_line_def st1_def)
    then show ?thesis using True s1 by simp
  next
    case False
    let ?h1 = "fst (new_Data (rheap st1) s)"
    let ?d = "snd (new_Data (rheap st1) s)"
    let ?g1 = "map_insert s ?d (map_get (rgraphs st1) (rcur st1) [])"
    from assms t False obtain h2 g2 where
      r: "read_members ?d rest (?h1, ?g1) = Some (h2, g2)"
      and g: "rgraphs st' = map_assign (rcur st1) g2 (rgraphs st1)"
      by (auto simp: read_line_def st1_def [symmetric] Let_def case_prod_unfold
               split: option.splits)
    from read_members_keys [OF r] have "fst ` set g2 = insert s (fst ` set (map_get (rgraphs st1) (rcur st1) [])) \<union> set rest"
      by (simp add: keys_map_insert)
    then show ?thesis using False g s1 by (auto simp: map_get_map_assign)
  qed
qed

theorem read_line_tests_first_token_only_witness:
  "data_line ''bA cS'' \<and> tokens ''bA cS'' = [''bA'', ''cS''] \<and>
   fromIsoSig toy_engine ''bA'' = Some ''bA'' \<and>
   read_line toy_engine \<lparr>rheap = [], rwaiting = [], rgraphs = [], rnComp = [], rmaxN = 0, rcur = ''#''\<rparr> ''bA cS'' =
     Some \<lparr>rheap = [\<lparr>sig = ''bA'', parent = Some 1, depth = 0, smallest = 1, minimal = 0\<rparr>,
                  \<lparr>sig = ''cS'', parent = None, depth = 1, smallest = 1, minimal = 0\<rparr>],
           rwaiting = [], rgraphs = [(''#'', [(''bA'', 0), (''cS'', 1)])], rnComp = [(''#'', 1)],
           rmaxN = 1, rcur = ''#''\<rparr> \<and>
   fst ` set (map_get [(''#'', [(''bA'', 0::nat), (''cS'', 1)])] ''#'' []) = {''bA'', ''cS''}"
proof -
  let ?st = "\<lparr>rheap = [], rwaiting = [], rgraphs = [], rnComp = [], rmaxN = 0, rcur = ''#''\<rparr>"
  let ?st' = "\<lparr>rheap = [\<lparr>sig = ''bA'', parent = Some 1, depth = 0, smallest = 1, minimal = 0\<rparr>,
                  \<lparr>sig = ''cS'', parent = None, depth = 1, smallest = 1, minimal = 0\<rparr>],
           rwaiting = [], rgraphs = [(''#'', [(''bA'', 0), (''cS'', 1)])], rnComp = [(''#'', 1)],
           rmaxN = 1, rcur = ''#''\<rparr>"
  have 1: "data_line ''bA cS''" by code_simp
  have 2: "tokens ''bA cS'' = [''bA'', ''cS'']" by code_simp
  have 3: "fromIsoSig toy_engine ''bA'' = Some ''bA''" by (simp add: toy_engine_def)
  have 4: "read_line toy_engine ?st ''bA cS'' = Some ?st'" by code_simp
  have 5: "\<not> snd (intelligentSimplify toy_engine ''bA'')" by (simp add: toy_engine_def)
  from read_line_tests_first_token_only [OF 1 2 3 4] 5
  have "fst ` set (map_get [(''#'', [(''bA'', 0::nat), (''cS'', 1)])] ''#'' []) =
        fst ` set (map_get ([] :: (Profile \<times> Graph) list) ''#'' []) \<union> {''bA''} \<union> set [''cS'']"
    by simp
  then have "fst ` set (map_get [(''#'', [(''bA'', 0::nat), (''cS'', 1)])] ''#'' []) = {''bA'', ''cS''}"
    by (simp add: map_get_def)
  then show ?thesis using 1 2 3 4 by blast
qed

text \<open>
  C5 as stated fails for the further tokens: the engine simplifies \<open>cS\<close>, and the line
  \<open>bA cS\<close> makes it a node all the same.
\<close>

theorem read_member_untested_counterexample:
  "fromIsoSig toy_engine ''cS'' = Some ''cS'' \<and>
   snd (intelligentSimplify toy_engine ''cS'') \<and>
   map_option rgraphs (read toy_engine [''bA cS'']) = Some [(''#'', [(''bA'', 0), (''cS'', 1)])]"
  by code_simp

section \<open>Properties of the explorer\<close>

lemma for_each_append:
  "for_each (xs @ ys) body st =
     (case for_each xs body st of None \<Rightarrow> None | Some st' \<Rightarrow> for_each ys body st')"
  by (induction xs arbitrary: st) (auto split: option.splits)

lemma for_each_guarded:
  "for_each xs (\<lambda>x st. if legal x then body (f x) st else Some st) st =
     for_each (map f (filter legal xs)) body st"
  by (induction xs arbitrary: st) (auto split: option.splits)

lemma for_each_guarded2:
  "for_each xs (\<lambda>(i, j) st. if legal i j then body (f i j) st else Some st) st =
     for_each (map (\<lambda>(i, j). f i j) (filter (\<lambda>(i, j). legal i j) xs)) body st"
  by (induction xs arbitrary: st) (auto split: option.splits)

lemma process_candidates:
  assumes "p < length h" and "fromIsoSig eng (sig (h ! p)) = Some t"
  shows "process eng p prof maxN nComp (h, g, qu) =
     (case for_each (candidates eng t) (visit p prof maxN)
             \<lparr>pheap = h, pgraph = g, pq = qu, pnComp = nComp, shrunk = False\<rparr> of
        None \<Rightarrow> None
      | Some st \<Rightarrow>
          Some (\<not> (shrunk st \<and> map_get (pnComp st) prof 0 = 1), pheap st, pgraph st, pq st))"
proof -
  have a: "for_each [0..<countEdges eng t]
             (\<lambda>i st. if threeTwoLegal eng t i
                then visit p prof maxN
                       (isoSig eng (fst (intelligentSimplify eng (threeTwoMove eng t i)))) st
                else Some st) s =
           for_each (map (\<lambda>i. isoSig eng (fst (intelligentSimplify eng (threeTwoMove eng t i))))
                       (filter (threeTwoLegal eng t) [0..<countEdges eng t]))
             (visit p prof maxN) s" for s
    by (rule for_each_guarded
          [where body = "visit p prof maxN" and legal = "threeTwoLegal eng t"
             and f = "\<lambda>i. isoSig eng (fst (intelligentSimplify eng (threeTwoMove eng t i)))"])
  have b: "for_each (List.product [0..<countEdges eng t] [0, 1])
             (\<lambda>(i, j) st. if fourFourLegal eng t i j
                then visit p prof maxN
                       (isoSig eng (fst (intelligentSimplify eng (fourFourMove eng t i j)))) st
                else Some st) s =
           for_each (map (\<lambda>(i, j). isoSig eng (fst (intelligentSimplify eng (fourFourMove eng t i j))))
                       (filter (\<lambda>(i, j). fourFourLegal eng t i j)
                          (List.product [0..<countEdges eng t] [0, 1])))
             (visit p prof maxN) s" for s
    by (rule for_each_guarded2
          [where body = "visit p prof maxN" and legal = "fourFourLegal eng t"
             and f = "\<lambda>i j. isoSig eng (fst (intelligentSimplify eng (fourFourMove eng t i j)))"])
  have c: "for_each [0..<countTriangles eng t]
             (\<lambda>i st. if twoThreeLegal eng t i
                then visit p prof maxN (isoSig eng (twoThreeMove eng t i)) st
                else Some st) s =
           for_each (map (\<lambda>i. isoSig eng (twoThreeMove eng t i))
                       (filter (twoThreeLegal eng t) [0..<countTriangles eng t]))
             (visit p prof maxN) s" for s
    by (rule for_each_guarded
          [where body = "visit p prof maxN" and legal = "twoThreeLegal eng t"
             and f = "\<lambda>i. isoSig eng (twoThreeMove eng t i)"])
  show ?thesis
    using assms
    apply (simp add: process_def)
    apply (simp only: a b c)
    apply (simp add: candidates_def for_each_append split: option.splits)
    done
qed

lemma visit_shrunk:
  "visit p prof maxN next st = Some st' \<Longrightarrow> shrunk st' \<longleftrightarrow> shrunk st \<or> proxy next < maxN"
  by (auto simp: visit_def Let_def case_prod_unfold split: option.splits if_splits)

lemma visit_queue:
  "visit p prof maxN next st = Some st' \<Longrightarrow> \<exists>new. pq st' = pq st @ new"
  by (auto simp: visit_def Let_def case_prod_unfold split: option.splits if_splits)

lemma for_each_visit_shrunk:
  "for_each xs (visit p prof maxN) st = Some st' \<Longrightarrow>
     shrunk st' \<longleftrightarrow> shrunk st \<or> (\<exists>s \<in> set xs. proxy s < maxN)"
proof (induction xs arbitrary: st)
  case Nil
  then show ?case by simp
next
  case (Cons x xs)
  from Cons.prems obtain st1 where
    1: "visit p prof maxN x st = Some st1" "for_each xs (visit p prof maxN) st1 = Some st'"
    by (auto split: option.splits)
  from Cons.IH [OF 1(2)] visit_shrunk [OF 1(1)] show ?case by auto
qed

lemma for_each_visit_queue:
  "for_each xs (visit p prof maxN) st = Some st' \<Longrightarrow> \<exists>new. pq st' = pq st @ new"
proof (induction xs arbitrary: st)
  case Nil
  then show ?case by simp
next
  case (Cons x xs)
  from Cons.prems obtain st1 where
    1: "visit p prof maxN x st = Some st1" "for_each xs (visit p prof maxN) st1 = Some st'"
    by (auto split: option.splits)
  from Cons.IH [OF 1(2)] visit_queue [OF 1(1)] show ?case by auto
qed

lemma process_queue:
  assumes "process eng p prof maxN nComp (h, g, qu) = Some (kg, h', g', qu')"
  shows "\<exists>new. qu' = qu @ new"
proof (cases "p < length h")
  case False
  then show ?thesis using assms by (simp add: process_def)
next
  case True
  show ?thesis
  proof (cases "fromIsoSig eng (sig (h ! p))")
    case None
    then show ?thesis using assms True by (simp add: process_def)
  next
    case (Some t)
    from assms obtain st where
      "for_each (candidates eng t) (visit p prof maxN)
         \<lparr>pheap = h, pgraph = g, pq = qu, pnComp = nComp, shrunk = False\<rparr> = Some st" "qu' = pq st"
      unfolding process_candidates [OF True Some] by (auto split: option.splits)
    then show ?thesis using for_each_visit_queue by fastforce
  qed
qed

lemma process_false:
  assumes "process eng p prof maxN nComp (h, g, qu) = Some (False, h', g', qu')"
  shows "\<exists>t. fromIsoSig eng (sig (h ! p)) = Some t \<and> (\<exists>s \<in> set (candidates eng t). proxy s < maxN)"
proof (cases "p < length h")
  case False
  then show ?thesis using assms by (simp add: process_def)
next
  case True
  show ?thesis
  proof (cases "fromIsoSig eng (sig (h ! p))")
    case None
    then show ?thesis using assms True by (simp add: process_def)
  next
    case (Some t)
    from assms obtain st where
      "for_each (candidates eng t) (visit p prof maxN)
         \<lparr>pheap = h, pgraph = g, pq = qu, pnComp = nComp, shrunk = False\<rparr> = Some st" "shrunk st"
      unfolding process_candidates [OF True Some] by (auto split: option.splits)
    then show ?thesis using for_each_visit_shrunk Some by fastforce
  qed
qed

lemma drain_stopped: "xq st \<noteq> [] \<Longrightarrow> \<not> keepGoing st \<Longrightarrow> drain eng prof maxN nComp st = Some st"
  by (subst drain.simps) (auto split: list.splits option.splits)

lemma drain_step:
  "xq st = Some key # rest \<Longrightarrow> keepGoing st \<Longrightarrow> map_of (xgraph st) key = Some p \<Longrightarrow>
   process eng p prof maxN nComp (xheap st, xgraph st, xq st) = Some (kg, h, g, qu) \<Longrightarrow>
   drain eng prof maxN nComp st =
     drain eng prof maxN nComp \<lparr>xheap = h, xgraph = g, xq = tl qu, keepGoing = kg\<rparr>"
  by (subst drain.simps) simp

lemma levels_loop_full:
  "levels_loop eng prof maxN nComp levels i st = Some (i', st') \<Longrightarrow> keepGoing st' \<Longrightarrow>
     i' = max i levels"
proof (induction eng prof maxN nComp levels i st rule: levels_loop.induct)
  case (1 eng prof maxN nComp levels i st)
  show ?case
  proof (cases "i < levels \<and> keepGoing st")
    case False
    then have "levels_loop eng prof maxN nComp levels i st = Some (i, st)"
      by (subst levels_loop.simps) auto
    then show ?thesis using "1.prems" False by auto
  next
    case True
    then obtain st1 x rest where
      s: "drain eng prof maxN nComp (st\<lparr>xq := xq st @ [None]\<rparr>) = Some st1" "xq st1 = x # rest"
         "levels_loop eng prof maxN nComp levels (i + 1) (st1\<lparr>xq := rest\<rparr>) = Some (i', st')"
      using "1.prems"(1) by (subst (asm) levels_loop.simps) (auto split: option.splits list.splits)
    from "1.IH" [OF True s(1,2) s(3) "1.prems"(2)] True show ?thesis by simp
  qed
qed

section \<open>The signatures process works with\<close>

text \<open>
  C6, as the code has it. One call of \<open>process\<close> on a node whose signature the engine
  parses to \<open>t\<close> is the loop body \<open>visit\<close> (shrink comparison, graph lookup, union) run
  over \<open>candidates eng t\<close>, in that order and on nothing else: every legal move is applied
  to a copy of \<open>t\<close>, which itself stays as parsed; after a 3-2 or a 4-4 move the copy is
  simplified before its signature is taken, after a 2-3 move the signature is taken from
  the copy as the move left it.
\<close>

theorem process_runs_over_candidates:
  assumes "p < length h" and "fromIsoSig eng (sig (h ! p)) = Some t"
  shows "process eng p prof maxN nComp (h, g, qu) =
     (case for_each (candidates eng t) (visit p prof maxN)
             \<lparr>pheap = h, pgraph = g, pq = qu, pnComp = nComp, shrunk = False\<rparr> of
        None \<Rightarrow> None
      | Some st \<Rightarrow>
          Some (\<not> (shrunk st \<and> map_get (pnComp st) prof 0 = 1), pheap st, pgraph st, pq st))"
  using assms by (rule process_candidates)

theorem process_runs_over_candidates_witness:
  "(0::nat) < length [\<lparr>sig = ''cG'', parent = None, depth = 0, smallest = 2, minimal = 0\<rparr>] \<and>
   fromIsoSig toy_engine
     (sig ([\<lparr>sig = ''cG'', parent = None, depth = 0, smallest = 2, minimal = 0\<rparr>] ! 0)) = Some ''cG'' \<and>
   candidates toy_engine ''cG'' = [''dT''] \<and>
   process toy_engine 0 ''#'' 2 [(''#'', 1)]
     ([\<lparr>sig = ''cG'', parent = None, depth = 0, smallest = 2, minimal = 0\<rparr>],
      [(''cG'', 0)], [Some ''cG'', None]) =
     (case for_each [''dT''] (visit 0 ''#'' 2)
             \<lparr>pheap = [\<lparr>sig = ''cG'', parent = None, depth = 0, smallest = 2, minimal = 0\<rparr>],
              pgraph = [(''cG'', 0)], pq = [Some ''cG'', None], pnComp = [(''#'', 1)],
              shrunk = False\<rparr> of
        None \<Rightarrow> None
      | Some st \<Rightarrow>
          Some (\<not> (shrunk st \<and> map_get (pnComp st) ''#'' 0 = 1), pheap st, pgraph st, pq st))"
proof -
  let ?h = "[\<lparr>sig = ''cG'', parent = None, depth = 0, smallest = 2, minimal = 0\<rparr>]"
  have 1: "(0::nat) < length ?h" by simp
  have 2: "fromIsoSig toy_engine (sig (?h ! 0)) = Some ''cG''" by (simp add: toy_engine_def)
  have 3: "candidates toy_engine ''cG'' = [''dT'']" by code_simp
  from process_runs_over_candidates [OF 1 2, of "''#''" 2 "[(''#'', 1)]" "[(''cG'', 0)]" "[Some ''cG'', None]"]
  show ?thesis using 1 2 3 by simp
qed

text \<open>
  C6 as stated fails for the 2-3 family: on \<open>cG\<close> the 2-3 move at triangle 0 is legal and
  leads to \<open>dT\<close>, which simplifies to \<open>cH\<close>; \<open>process\<close> looks up and inserts \<open>dT\<close>.
\<close>

theorem two_three_unsimplified_counterexample:
  "twoThreeLegal toy_engine ''cG'' 0 \<and>
   isoSig toy_engine (twoThreeMove toy_engine ''cG'' 0) = ''dT'' \<and>
   isoSig toy_engine (fst (intelligentSimplify toy_engine (twoThreeMove toy_engine ''cG'' 0))) = ''cH'' \<and>
   process toy_engine 0 ''#'' 2 [(''#'', 1)]
     ([\<lparr>sig = ''cG'', parent = None, depth = 0, smallest = 2, minimal = 0\<rparr>],
      [(''cG'', 0)], [Some ''cG'', None]) =
     Some (True,
           [\<lparr>sig = ''cG'', parent = Some 1, depth = 0, smallest = 2, minimal = 0\<rparr>,
            \<lparr>sig = ''dT'', parent = None, depth = 1, smallest = 2, minimal = 0\<rparr>],
           [(''cG'', 0), (''dT'', 1)], [Some ''cG'', None, Some ''dT''])"
  by code_simp

section \<open>When the explorer stops\<close>

text \<open>
  C3, as the code has it. (1) \<open>process\<close> returns false only if a shrink occurred in that
  very call: one of the node's own candidate signatures has a proxy below \<open>maxN\<close>.
  (2) When the call for the node at the front of the queue returns false, the inner loop
  is left at once with \<open>keepGoing\<close> false, whatever is still queued before the
  sentinel. (3) With \<open>keepGoing\<close> false the loop over the levels starts no further
  generation. (4) When the exploration ends with \<open>keepGoing\<close> true, all levels were run.
\<close>

theorem explorer_stops:
  "(process eng p prof maxN nComp (h, g, qu) = Some (False, h', g', qu') \<longrightarrow>
      (\<exists>t. fromIsoSig eng (sig (h ! p)) = Some t \<and> (\<exists>s \<in> set (candidates eng t). proxy s < maxN))) \<and>
   (xq st = Some key # rest \<and> None \<in> set rest \<and> keepGoing st \<and>
    map_of (xgraph st) key = Some n \<and>
    process eng n prof maxN nComp (xheap st, xgraph st, xq st) = Some (False, h1, g1, qu1) \<longrightarrow>
      drain eng prof maxN nComp st =
        Some \<lparr>xheap = h1, xgraph = g1, xq = tl qu1, keepGoing = False\<rparr> \<and>
      (\<exists>new. tl qu1 = rest @ new)) \<and>
   (\<not> keepGoing sx \<longrightarrow> levels_loop eng prof maxN nComp levels i sx = Some (i, sx)) \<and>
   (levels_loop eng prof maxN nComp levels i sy = Some (i', sy') \<and> keepGoing sy' \<longrightarrow>
      i' = max i levels)"
proof (intro conjI impI)
  assume "process eng p prof maxN nComp (h, g, qu) = Some (False, h', g', qu')"
  then show "\<exists>t. fromIsoSig eng (sig (h ! p)) = Some t \<and> (\<exists>s \<in> set (candidates eng t). proxy s < maxN)"
    by (rule process_false)
next
  assume a: "xq st = Some key # rest \<and> None \<in> set rest \<and> keepGoing st \<and>
    map_of (xgraph st) key = Some n \<and>
    process eng n prof maxN nComp (xheap st, xgraph st, xq st) = Some (False, h1, g1, qu1)"
  from a process_queue obtain new where new: "qu1 = xq st @ new" by blast
  then have tl: "tl qu1 = rest @ new" using a by simp
  then have ne: "tl qu1 \<noteq> []" using a by auto
  have "drain eng prof maxN nComp st =
        drain eng prof maxN nComp \<lparr>xheap = h1, xgraph = g1, xq = tl qu1, keepGoing = False\<rparr>"
    using a by (intro drain_step) auto
  also have "\<dots> = Some \<lparr>xheap = h1, xgraph = g1, xq = tl qu1, keepGoing = False\<rparr>"
    using ne by (intro drain_stopped) auto
  finally show "drain eng prof maxN nComp st =
        Some \<lparr>xheap = h1, xgraph = g1, xq = tl qu1, keepGoing = False\<rparr>" .
  show "\<exists>new. tl qu1 = rest @ new" using tl by blast
next
  assume "\<not> keepGoing sx"
  then show "levels_loop eng prof maxN nComp levels i sx = Some (i, sx)"
    by (subst levels_loop.simps) simp
next
  assume "levels_loop eng prof maxN nComp levels i sy = Some (i', sy') \<and> keepGoing sy'"
  then show "i' = max i levels" using levels_loop_full by blast
qed

theorem explorer_stops_witness:
  "process toy_engine 0 ''#'' 2 [(''#'', 1)]
     ([\<lparr>sig = ''cD'', parent = Some 1, depth = 0, smallest = 2, minimal = 0\<rparr>,
       \<lparr>sig = ''cE'', parent = None, depth = 1, smallest = 2, minimal = 1\<rparr>],
      [(''cD'', 0), (''cE'', 1)], [Some ''cD'', Some ''cE'', None]) =
     Some (False,
       [\<lparr>sig = ''cD'', parent = Some 1, depth = 0, smallest = 2, minimal = 0\<rparr>,
        \<lparr>sig = ''cE'', parent = None, depth = 1, smallest = 1, minimal = 2\<rparr>,
        \<lparr>sig = ''bX'', parent = Some 1, depth = 0, smallest = 1, minimal = 2\<rparr>],
       [(''bX'', 2), (''cD'', 0), (''cE'', 1)], [Some ''cD'', Some ''cE'', None, Some ''bX'']) \<and>
   (\<exists>t. fromIsoSig toy_engine ''cD'' = Some t \<and>
        (\<exists>s \<in> set (candidates toy_engine t). proxy s < 2)) \<and>
   drain toy_engine ''#'' 2 [(''#'', 1)]
     \<lparr>xheap = [\<lparr>sig = ''cD'', parent = Some 1, depth = 0, smallest = 2, minimal = 0\<rparr>,
               \<lparr>sig = ''cE'', parent = None, depth = 1, smallest = 2, minimal = 1\<rparr>],
      xgraph = [(''cD'', 0), (''cE'', 1)], xq = [Some ''cD'', Some ''cE'', None],
      keepGoing = True\<rparr> =
     Some \<lparr>xheap = [\<lparr>sig = ''cD'', parent = Some 1, depth = 0, smallest = 2, minimal = 0\<rparr>,
                   \<lparr>sig = ''cE'', parent = None, depth = 1, smallest = 1, minimal = 2\<rparr>,
                   \<lparr>sig = ''bX'', parent = Some 1, depth = 0, smallest = 1, minimal = 2\<rparr>],
           xgraph = [(''bX'', 2), (''cD'', 0), (''cE'', 1)],
           xq = [Some ''cE'', None, Some ''bX''], keepGoing = False\<rparr> \<and>
   levels_loop toy_engine ''#'' 2 [(''#'', 1)] 2 1
     \<lparr>xheap = [], xgraph = [], xq = [None, Some ''bX''], keepGoing = False\<rparr> =
     Some (1, \<lparr>xheap = [], xgraph = [], xq = [None, Some ''bX''], keepGoing = False\<rparr>) \<and>
   levels_loop toy_engine ''#'' 2 [(''#'', 1)] 2 1
     \<lparr>xheap = [\<lparr>sig = ''cA'', parent = None, depth = 0, smallest = 2, minimal = 0\<rparr>,
               \<lparr>sig = ''cB'', parent = None, depth = 0, smallest = 2, minimal = 1\<rparr>],
      xgraph = [(''cA'', 0), (''cB'', 1)], xq = [Some ''cA'', Some ''cB''], keepGoing = True\<rparr> =
     Some (2, \<lparr>xheap = [\<lparr>sig = ''cA'', parent = Some 1, depth = 0, smallest = 2, minimal = 0\<rparr>,
                       \<lparr>sig = ''cB'', parent = None, depth = 1, smallest = 2, minimal = 1\<rparr>],
               xgraph = [(''cA'', 0), (''cB'', 1)], xq = [], keepGoing = True\<rparr>) \<and>
   (2::int) = max 1 2"
proof -
  let ?h0 = "[\<lparr>sig = ''cD'', parent = Some 1, depth = 0, smallest = 2, minimal = 0\<rparr>,
              \<lparr>sig = ''cE'', parent = None, depth = 1, smallest = 2, minimal = 1\<rparr>]"
  let ?h1 = "[\<lparr>sig = ''cD'', parent = Some 1, depth = 0, smallest = 2, minimal = 0\<rparr>,
              \<lparr>sig = ''cE'', parent = None, depth = 1, smallest = 1, minimal = 2\<rparr>,
              \<lparr>sig = ''bX'', parent = Some 1, depth = 0, smallest = 1, minimal = 2\<rparr>]"
  let ?g0 = "[(''cD'', 0::nat), (''cE'', 1)]"
  let ?g1 = "[(''bX'', 2::nat), (''cD'', 0), (''cE'', 1)]"
  let ?q0 = "[Some ''cD'', Some ''cE'', None]"
  let ?q1 = "[Some ''cD'', Some ''cE'', None, Some ''bX'']"
  let ?st = "\<lparr>xheap = ?h0, xgraph = ?g0, xq = ?q0, keepGoing = True\<rparr>"
  let ?sx = "\<lparr>xheap = [], xgraph = [], xq = [None, Some ''bX''], keepGoing = False\<rparr>"
  let ?sy = "\<lparr>xheap = [\<lparr>sig = ''cA'', parent = None, depth = 0, smallest = 2, minimal = 0\<rparr>,
                       \<lparr>sig = ''cB'', parent = None, depth = 0, smallest = 2, minimal = 1\<rparr>],
              xgraph = [(''cA'', 0), (''cB'', 1)], xq = [Some ''cA'', Some ''cB''],
              keepGoing = True\<rparr>"
  let ?sy' = "\<lparr>xheap = [\<lparr>sig = ''cA'', parent = Some 1, depth = 0, smallest = 2, minimal = 0\<rparr>,
                        \<lparr>sig = ''cB'', parent = None, depth = 1, smallest = 2, minimal = 1\<rparr>],
               xgraph = [(''cA'', 0), (''cB'', 1)], xq = [], keepGoing = True\<rparr>"
  have p: "process toy_engine 0 ''#'' 2 [(''#'', 1)] (?h0, ?g0, ?q0) = Some (False, ?h1, ?g1, ?q1)"
    by code_simp
  have l: "levels_loop toy_engine ''#'' 2 [(''#'', 1)] 2 1 ?sy = Some (2, ?sy')"
    by code_simp
  note w = explorer_stops [where eng = toy_engine and p = 0 and prof = "''#''" and maxN = 2
      and nComp = "[(''#'', 1)]" and h = ?h0 and g = ?g0 and qu = ?q0
      and h' = ?h1 and g' = ?g1 and qu' = ?q1
      and st = ?st and key = "''cD''" and rest = "[Some ''cE'', None]" and n = 0
      and ?h1.0 = ?h1 and ?g1.0 = ?g1 and ?qu1.0 = ?q1
      and sx = ?sx and levels = 2 and i = 1 and sy = ?sy and i' = 2 and sy' = ?sy']
  have 1: "\<exists>t. fromIsoSig toy_engine ''cD'' = Some t \<and>
        (\<exists>s \<in> set (candidates toy_engine t). proxy s < 2)"
    using w p by simp
  have 2: "drain toy_engine ''#'' 2 [(''#'', 1)] ?st =
        Some \<lparr>xheap = ?h1, xgraph = ?g1, xq = [Some ''cE'', None, Some ''bX''], keepGoing = False\<rparr>"
    using w p by simp
  have 3: "levels_loop toy_engine ''#'' 2 [(''#'', 1)] 2 1 ?sx = Some (1, ?sx)"
    using w by simp
  have 4: "(2::int) = max 1 2" using w l by simp
  show ?thesis using p 1 2 3 l 4 by blast
qed

text \<open>
  C3 as stated fails: the loop does not wait for the generation to drain. With two
  levels asked for, the exploration of the class \<open>{cD, cE}\<close> is over after the first
  call of \<open>process\<close>, on \<open>cD\<close>: the inner loop is left while \<open>cE\<close>, a node of the
  same generation with a legal move to \<open>cF\<close>, is still queued before the sentinel;
  \<open>cE\<close> is then popped unprocessed and \<open>cF\<close> never reaches the graph.
\<close>

theorem stops_mid_generation_counterexample:
  "drain toy_engine ''#'' 2 [(''#'', 1)]
     \<lparr>xheap = [\<lparr>sig = ''cD'', parent = Some 1, depth = 0, smallest = 2, minimal = 0\<rparr>,
               \<lparr>sig = ''cE'', parent = None, depth = 1, smallest = 2, minimal = 1\<rparr>],
      xgraph = [(''cD'', 0), (''cE'', 1)], xq = [Some ''cD'', Some ''cE'', None],
      keepGoing = True\<rparr> =
     Some \<lparr>xheap = [\<lparr>sig = ''cD'', parent = Some 1, depth = 0, smallest = 2, minimal = 0\<rparr>,
                   \<lparr>sig = ''cE'', parent = None, depth = 1, smallest = 1, minimal = 2\<rparr>,
                   \<lparr>sig = ''bX'', parent = Some 1, depth = 0, smallest = 1, minimal = 2\<rparr>],
           xgraph = [(''bX'', 2), (''cD'', 0), (''cE'', 1)],
           xq = [Some ''cE'', None, Some ''bX''], keepGoing = False\<rparr> \<and>
   levels_loop toy_engine ''#'' 2 [(''#'', 1)] 2 0
     \<lparr>xheap = [\<lparr>sig = ''cD'', parent = Some 1, depth = 0, smallest = 2, minimal = 0\<rparr>,
               \<lparr>sig = ''cE'', parent = None, depth = 1, smallest = 2, minimal = 1\<rparr>],
      xgraph = [(''cD'', 0), (''cE'', 1)], xq = [Some ''cD'', Some ''cE''],
      keepGoing = True\<rparr> =
     Some (1, \<lparr>xheap = [\<lparr>sig = ''cD'', parent = Some 1, depth = 0, smallest = 2, minimal = 0\<rparr>,
                       \<lparr>sig = ''cE'', parent = None, depth = 1, smallest = 1, minimal = 2\<rparr>,
                       \<lparr>sig = ''bX'', parent = Some 1, depth = 0, smallest = 1, minimal = 2\<rparr>],
               xgraph = [(''bX'', 2), (''cD'', 0), (''cE'', 1)],
               xq = [None, Some ''bX''], keepGoing = False\<rparr>) \<and>
   candidates toy_engine ''cE'' = [''cF'']"
  by code_simp

section \<open>The component counts during exploration\<close>

text \<open>
  C2 at a concrete run. The file has the two lines \<open>cA\<close> and \<open>cB\<close>; \<open>read\<close> leaves
  two classes and the count 2. Exploring one level merges them through the 4-4 move
  from \<open>cA\<close> to \<open>cB\<close>: one class is left (and one line is written). The count was
  decremented in the copy that this call of \<open>process\<close> received; the table of
  \<open>pachner\<close>, which every later call is handed again, still says 2.
\<close>

theorem count_table_not_decremented:
  "read toy_engine [''cA'', ''cB''] =
     Some \<lparr>rheap = [\<lparr>sig = ''cA'', parent = None, depth = 0, smallest = 2, minimal = 0\<rparr>,
                   \<lparr>sig = ''cB'', parent = None, depth = 0, smallest = 2, minimal = 1\<rparr>],
           rwaiting = [], rgraphs = [(''#'', [(''cA'', 0), (''cB'', 1)])],
           rnComp = [(''#'', 2)], rmaxN = 2, rcur = ''#''\<rparr> \<and>
   live_classes [\<lparr>sig = ''cA'', parent = None, depth = 0, smallest = 2, minimal = 0\<rparr>,
                 \<lparr>sig = ''cB'', parent = None, depth = 0, smallest = 2, minimal = 1\<rparr>]
     [(''cA'', 0), (''cB'', 1)] = 2 \<and>
   pachner_graph toy_engine 1 [] [(''#'', 2)] 2 ''#'' [(''cA'', 0), (''cB'', 1)]
     [\<lparr>sig = ''cA'', parent = None, depth = 0, smallest = 2, minimal = 0\<rparr>,
      \<lparr>sig = ''cB'', parent = None, depth = 0, smallest = 2, minimal = 1\<rparr>] =
     Some (\<lparr>xheap = [\<lparr>sig = ''cA'', parent = Some 1, depth = 0, smallest = 2, minimal = 0\<rparr>,
                      \<lparr>sig = ''cB'', parent = None, depth = 1, smallest = 2, minimal = 1\<rparr>],
             xgraph = [(''cA'', 0), (''cB'', 1)], xq = [], keepGoing = True\<rparr>,
           ''#'' @ [CHR 0x0A] @ ''cA cB'' @ [CHR 0x0A]) \<and>
   live_classes [\<lparr>sig = ''cA'', parent = Some 1, depth = 0, smallest = 2, minimal = 0\<rparr>,
                 \<lparr>sig = ''cB'', parent = None, depth = 1, smallest = 2, minimal = 1\<rparr>]
     [(''cA'', 0), (''cB'', 1)] = 1 \<and>
   map_get [(''#'', 2 :: 32 word)] ''#'' 0 = 2"
  by code_simp

section \<open>What dump_pachner writes\<close>

lemma set_mm_insert: "set (mm_insert k v xs) = insert (k, v) (set xs)"
proof (induction xs)
  case Nil
  then show ?case by simp
next
  case (Cons x xs)
  obtain k' v' where "x = (k', v')" by (cases x)
  then show ?case using Cons.IH by auto
qed

lemma proxy_le: "proxy key \<le> maxN \<longleftrightarrow> \<not> first_char key > char_int CHR ''a'' + maxN"
  by (auto simp: proxy_def)

lemma root_smallest:
  assumes "heap_ok h" and "same_data h h'" and "\<forall>m. find_root h' m = find_root h m"
    and "d < length h"
  shows "(find_root h' d = Some r \<and> smallest (h' ! r) = maxN) \<longleftrightarrow>
         (find_root h d = Some r \<and> smallest (h ! r) = maxN)"
proof -
  from find_root_total [OF assms(1,4)] obtain r' where
    r': "find_root h d = Some r'" "r' < length h" by blast
  then have "smallest (h' ! r') = smallest (h ! r')" using assms(2) by (simp add: same_data_def)
  then show ?thesis using r' assms(3) by auto
qed

lemma kept_Cons:
  assumes "find_root h d = Some r"
  shows "kept h ((key, d) # g) maxN =
           (if proxy key \<le> maxN \<and> smallest (h ! r) = maxN then {key} else {}) \<union> kept h g maxN"
  using assms unfolding kept_def by auto

lemma kept_same:
  assumes ok: "heap_ok h" and sd: "same_data h h'" and fr: "\<forall>m. find_root h' m = find_root h m"
    and g: "\<forall>(k, d) \<in> set g. d < length h"
  shows "kept h' g maxN = kept h g maxN"
proof -
  have "(find_root h' e = Some i \<and> smallest (h' ! i) = maxN) \<longleftrightarrow>
        (find_root h e = Some i \<and> smallest (h ! i) = maxN)" if "(k, e) \<in> set g" for k e i
  proof -
    have "e < length h" using g that by auto
    then show ?thesis by (rule root_smallest [OF ok sd fr])
  qed
  then show ?thesis unfolding kept_def by blast
qed

lemma dump_comps_total:
  "heap_ok h \<Longrightarrow> \<forall>(k, d) \<in> set g. d < length h \<Longrightarrow>
     \<exists>h' comps'. dump_comps maxN g (h, comps) = Some (h', comps') \<and>
        snd ` set comps' = snd ` set comps \<union> kept h g maxN"
proof (induction g arbitrary: h comps)
  case Nil
  then show ?case by (simp add: kept_def)
next
  case (Cons x g)
  obtain key d where x: "x = (key, d)" by (cases x)
  have d: "d < length h" and g: "\<forall>(k, d) \<in> set g. d < length h"
    using Cons.prems(2) x by auto
  from root_total [OF Cons.prems(1) d] obtain h1 r where
    1: "root h d = Some (h1, r)" "find_root h d = Some r" "heap_ok h1" "same_data h h1"
       "\<forall>m. find_root h1 m = find_root h m" by blast
  have len1: "length h1 = length h" using 1(4) by (simp add: same_data_def)
  from root_total [OF 1(3), of d] d len1 obtain h2 r2 where
    2: "root h1 d = Some (h2, r2)" "find_root h1 d = Some r2" "heap_ok h2" "same_data h1 h2"
       "\<forall>m. find_root h2 m = find_root h1 m" by auto
  have r2: "r2 = r" using 1(2,5) 2(2) by simp
  have len2: "length h2 = length h" using 2(4) len1 by (simp add: same_data_def)
  have sd2: "same_data h h2" using 1(4) 2(4) by (rule same_data_trans)
  have fr2: "\<forall>m. find_root h2 m = find_root h m" using 1(5) 2(5) by simp
  have sm1: "smallest (h1 ! r) = smallest (h ! r)"
    using find_root_total [OF Cons.prems(1) d] 1(2,4) by (auto simp: same_data_def)
  have k1: "kept h1 g maxN = kept h g maxN" by (rule kept_same [OF Cons.prems(1) 1(4,5) g])
  have k2: "kept h2 g maxN = kept h g maxN" by (rule kept_same [OF Cons.prems(1) sd2 fr2 g])
  have head: "kept h (x # g) maxN =
      (if proxy key \<le> maxN \<and> smallest (h ! r) = maxN then {key} else {}) \<union> kept h g maxN"
    unfolding x by (rule kept_Cons [OF 1(2)])
  show ?case
  proof (cases "first_char key > char_int CHR ''a'' + maxN")
    case True
    from Cons.IH [OF Cons.prems(1) g, of comps] obtain h' comps' where
      i: "dump_comps maxN g (h, comps) = Some (h', comps')"
      "snd ` set comps' = snd ` set comps \<union> kept h g maxN" by blast
    have "dump_comps maxN (x # g) (h, comps) = Some (h', comps')" using True i(1) x by simp
    moreover have "kept h (x # g) maxN = kept h g maxN"
      using head True proxy_le [of key maxN] by simp
    ultimately show ?thesis using i(2) by simp
  next
    case False
    then have le: "proxy key \<le> maxN" using proxy_le [of key maxN] by simp
    show ?thesis
    proof (cases "smallest (h1 ! r) = maxN")
      case eq: True
      have g2: "\<forall>(k, d) \<in> set g. d < length h2" using g len2 by simp
      from Cons.IH [OF 2(3) g2, of "mm_insert (sig (h2 ! r2)) key comps"] obtain h' comps' where
        i: "dump_comps maxN g (h2, mm_insert (sig (h2 ! r2)) key comps) = Some (h', comps')"
        "snd ` set comps' = snd ` set (mm_insert (sig (h2 ! r2)) key comps) \<union> kept h2 g maxN"
        by blast
      have "dump_comps maxN (x # g) (h, comps) = Some (h', comps')"
        using False eq i(1) 1(1) 2(1) x by simp
      moreover have "kept h (x # g) maxN = insert key (kept h g maxN)"
        using head le eq sm1 by simp
      ultimately show ?thesis using i(2) k2 by (simp add: set_mm_insert)
    next
      case ne: False
      have g1: "\<forall>(k, d) \<in> set g. d < length h1" using g len1 by simp
      from Cons.IH [OF 1(3) g1, of comps] obtain h' comps' where
        i: "dump_comps maxN g (h1, comps) = Some (h', comps')"
        "snd ` set comps' = snd ` set comps \<union> kept h1 g maxN"
        by blast
      have "dump_comps maxN (x # g) (h, comps) = Some (h', comps')"
        using False ne i(1) 1(1) x by simp
      moreover have "kept h (x # g) maxN = kept h g maxN"
        using head ne sm1 by simp
      ultimately show ?thesis using i(2) k1 by simp
    qed
  qed
qed

lemma split_ws_word:
  "\<forall>c \<in> set v. \<not> isspace c \<Longrightarrow> split_ws cur (v @ rest) = split_ws (cur @ v) rest"
  by (induction v arbitrary: cur) auto

lemma split_ws_written:
  "\<forall>(k, v) \<in> set xs. v \<noteq> [] \<and> (\<forall>c \<in> set v. \<not> isspace c) \<Longrightarrow> cur \<noteq> [] \<Longrightarrow>
     split_ws cur (write_comps (Some pk) xs) = cur # map snd xs"
proof (induction xs arbitrary: cur pk)
  case Nil
  then show ?case by simp
next
  case (Cons x xs)
  obtain k v where x: "x = (k, v)" by (cases x)
  have v: "v \<noteq> []" "\<forall>c \<in> set v. \<not> isspace c" using Cons.prems(1) x by auto
  have "split_ws [] (v @ write_comps (Some k) xs) = split_ws v (write_comps (Some k) xs)"
    using split_ws_word [OF v(2), of "[]"] by simp
  also have "\<dots> = v # map snd xs" using Cons.IH [OF _ v(1)] Cons.prems(1) by simp
  finally show ?case using Cons.prems(2) x by (simp add: isspace_def)
qed

lemma tokens_write_comps:
  assumes "\<forall>(k, v) \<in> set xs. v \<noteq> [] \<and> (\<forall>c \<in> set v. \<not> isspace c)"
  shows "tokens (write_comps None xs) = map snd xs"
proof (cases xs)
  case Nil
  then show ?thesis by (simp add: tokens_def)
next
  case (Cons x xs')
  obtain k v where x: "x = (k, v)" by (cases x)
  have v: "v \<noteq> []" "\<forall>c \<in> set v. \<not> isspace c" using assms Cons x by auto
  have "split_ws [] (v @ write_comps (Some k) xs') = split_ws v (write_comps (Some k) xs')"
    using split_ws_word [OF v(2), of "[]"] by simp
  also have "\<dots> = v # map snd xs'" using split_ws_written [OF _ v(1)] assms Cons by simp
  finally show ?thesis using Cons x by (simp add: tokens_def)
qed

text \<open>
  C10. On a well-formed heap and a graph (a map: no key twice) whose keys are tokens
  (non-empty, no white space), \<open>dump_pachner\<close> returns; it writes the profile on the first line and then, as
  the tokens of the rest, exactly the signatures of the graph whose proxy is at most
  \<open>maxN\<close> and whose class root stores a \<open>smallest\<close> equal to \<open>maxN\<close>. So every class
  whose root stores a value below \<open>maxN\<close> is left out altogether.
\<close>

theorem dump_pachner_writes:
  assumes "heap_ok h" and "distinct (map fst g)"
    and "\<forall>(k, d) \<in> set g. d < length h \<and> k \<noteq> [] \<and> (\<forall>c \<in> set k. \<not> isspace c)"
  shows "\<exists>h' body.
           dump_pachner p g maxN h = Some (h', p @ [CHR 0x0A] @ body @ [CHR 0x0A]) \<and>
           set (tokens body) =
             {k. \<exists>d r. (k, d) \<in> set g \<and> proxy k \<le> maxN \<and> find_root h d = Some r \<and>
                    smallest (h ! r) = maxN} \<and>
           (\<forall>k d r. (k, d) \<in> set g \<and> find_root h d = Some r \<and> smallest (h ! r) < maxN \<longrightarrow>
              k \<notin> set (tokens body))"
proof -
  have "\<forall>(k, d) \<in> set g. d < length h" using assms(3) by auto
  from dump_comps_total [OF assms(1) this, of maxN "[]"] obtain h' comps where
    c: "dump_comps maxN g (h, []) = Some (h', comps)"
       "snd ` set comps = kept h g maxN" by auto
  have "kept h g maxN \<subseteq> fst ` set g" unfolding kept_def by force
  then have "snd ` set comps \<subseteq> fst ` set g" using c(2) by simp
  then have "\<forall>(k, v) \<in> set comps. v \<noteq> [] \<and> (\<forall>c \<in> set v. \<not> isspace c)"
    using assms(3) by fastforce
  then have t: "tokens (write_comps None comps) = map snd comps" by (rule tokens_write_comps)
  have "set (tokens (write_comps None comps)) = kept h g maxN"
    using t c(2) by simp
  moreover have "dump_pachner p g maxN h =
      Some (h', p @ [CHR 0x0A] @ write_comps None comps @ [CHR 0x0A])"
    using c(1) by (simp add: dump_pachner_def)
  moreover have "\<forall>k d r. (k, d) \<in> set g \<and> find_root h d = Some r \<and> smallest (h ! r) < maxN \<longrightarrow>
              k \<notin> kept h g maxN"
  proof (intro allI impI notI)
    fix k d r
    assume a: "(k, d) \<in> set g \<and> find_root h d = Some r \<and> smallest (h ! r) < maxN"
      and "k \<in> kept h g maxN"
    then obtain d' r' where b: "(k, d') \<in> set g" "find_root h d' = Some r'" "smallest (h ! r') = maxN"
      unfolding kept_def by blast
    have "d' = d" using assms(2) a b(1) by (meson eq_key_imp_eq_value)
    then show False using a b by simp
  qed
  ultimately show ?thesis unfolding kept_def by blast
qed

theorem dump_pachner_writes_witness:
  "heap_ok [\<lparr>sig = ''cA'', parent = Some 1, depth = 0, smallest = 2, minimal = 0\<rparr>,
            \<lparr>sig = ''cB'', parent = None, depth = 1, smallest = 2, minimal = 1\<rparr>,
            \<lparr>sig = ''cD'', parent = Some 3, depth = 0, smallest = 2, minimal = 2\<rparr>,
            \<lparr>sig = ''bX'', parent = None, depth = 1, smallest = 1, minimal = 3\<rparr>] \<and>
   distinct (map fst [(''bX'', 3::nat), (''cA'', 0), (''cB'', 1), (''cD'', 2)]) \<and>
   list_all (\<lambda>(k, d). d < 4 \<and> k \<noteq> [] \<and> list_all (\<lambda>c. \<not> isspace c) k)
     [(''bX'', 3::nat), (''cA'', 0), (''cB'', 1), (''cD'', 2)] \<and>
   dump_pachner ''# orbl;'' [(''bX'', 3), (''cA'', 0), (''cB'', 1), (''cD'', 2)] 2
       [\<lparr>sig = ''cA'', parent = Some 1, depth = 0, smallest = 2, minimal = 0\<rparr>,
        \<lparr>sig = ''cB'', parent = None, depth = 1, smallest = 2, minimal = 1\<rparr>,
        \<lparr>sig = ''cD'', parent = Some 3, depth = 0, smallest = 2, minimal = 2\<rparr>,
        \<lparr>sig = ''bX'', parent = None, depth = 1, smallest = 1, minimal = 3\<rparr>] =
     Some ([\<lparr>sig = ''cA'', parent = Some 1, depth = 0, smallest = 2, minimal = 0\<rparr>,
            \<lparr>sig = ''cB'', parent = None, depth = 1, smallest = 2, minimal = 1\<rparr>,
            \<lparr>sig = ''cD'', parent = Some 3, depth = 0, smallest = 2, minimal = 2\<rparr>,
            \<lparr>sig = ''bX'', parent = None, depth = 1, smallest = 1, minimal = 3\<rparr>],
           ''# orbl;'' @ [CHR 0x0A] @ ''cA cB'' @ [CHR 0x0A]) \<and>
   set (tokens ''cA cB'') =
     {k. \<exists>d r. (k, d) \<in> set [(''bX'', 3), (''cA'', 0), (''cB'', 1), (''cD'', 2)] \<and> proxy k \<le> 2 \<and>
        find_root [\<lparr>sig = ''cA'', parent = Some 1, depth = 0, smallest = 2, minimal = 0\<rparr>,
                   \<lparr>sig = ''cB'', parent = None, depth = 1, smallest = 2, minimal = 1\<rparr>,
                   \<lparr>sig = ''cD'', parent = Some 3, depth = 0, smallest = 2, minimal = 2\<rparr>,
                   \<lparr>sig = ''bX'', parent = None, depth = 1, smallest = 1, minimal = 3\<rparr>] d = Some r \<and>
        smallest ([\<lparr>sig = ''cA'', parent = Some 1, depth = 0, smallest = 2, minimal = 0\<rparr>,
                   \<lparr>sig = ''cB'', parent = None, depth = 1, smallest = 2, minimal = 1\<rparr>,
                   \<lparr>sig = ''cD'', parent = Some 3, depth = 0, smallest = 2, minimal = 2\<rparr>,
                   \<lparr>sig = ''bX'', parent = None, depth = 1, smallest = 1, minimal = 3\<rparr>] ! r) = 2}"
proof -
  let ?h = "[\<lparr>sig = ''cA'', parent = Some 1, depth = 0, smallest = 2, minimal = 0\<rparr>,
             \<lparr>sig = ''cB'', parent = None, depth = 1, smallest = 2, minimal = 1\<rparr>,
             \<lparr>sig = ''cD'', parent = Some 3, depth = 0, smallest = 2, minimal = 2\<rparr>,
             \<lparr>sig = ''bX'', parent = None, depth = 1, smallest = 1, minimal = 3\<rparr>]"
  let ?g = "[(''bX'', 3::nat), (''cA'', 0), (''cB'', 1), (''cD'', 2)]"
  have 1: "heap_ok ?h" by (simp add: heap_ok_def All_less_Suc numeral_eq_Suc)
  have 2: "distinct (map fst ?g)" by simp
  have 3: "list_all (\<lambda>(k, d). d < 4 \<and> k \<noteq> [] \<and> list_all (\<lambda>c. \<not> isspace c) k) ?g"
    by (simp add: isspace_def)
  have h3: "\<forall>(k, d) \<in> set ?g. d < length ?h \<and> k \<noteq> [] \<and> (\<forall>c \<in> set k. \<not> isspace c)"
    by (simp add: isspace_def)
  have 4: "dump_pachner ''# orbl;'' ?g 2 ?h = Some (?h, ''# orbl;'' @ [CHR 0x0A] @ ''cA cB'' @ [CHR 0x0A])"
    by code_simp
  from dump_pachner_writes [OF 1 2 h3, of "''# orbl;''" 2] 4
  have "set (tokens ''cA cB'') =
     {k. \<exists>d r. (k, d) \<in> set ?g \<and> proxy k \<le> 2 \<and> find_root ?h d = Some r \<and> smallest (?h ! r) = 2}"
    by auto
  then show ?thesis using 1 2 3 4 by blast
qed

section \<open>The files the partitioner leaves\<close>

text \<open>
  C7 at a concrete run, one level of invariants asked for. The file holds two profile
  blocks of two classes each, so both graphs are partitioned. Each call of
  \<open>dump_partition\<close> numbers its files from 0 under the same prefix: the file of the
  second graph replaces the file of the first, and the signatures \<open>cK\<close> and \<open>cL\<close> of
  the first graph are in no output file.
\<close>

theorem partition_overwrites_first_graph:
  "map_option rgraphs (read toy_engine [''# a;'', ''cK'', ''cL'', ''# b;'', ''cM'', ''cN'']) =
     Some [(''# a;'', [(''cK'', 0), (''cL'', 1)]), (''# b;'', [(''cM'', 2), (''cN'', 3)])] \<and>
   map_option rnComp (read toy_engine [''# a;'', ''cK'', ''cL'', ''# b;'', ''cM'', ''cN'']) =
     Some [(''# a;'', 2), (''# b;'', 2)] \<and>
   partition_census toy_engine [''# a;'', ''cK'', ''cL''] 1 ''out_'' =
     Some [(''out_0.sigs'', ''# a;Z;'' @ [CHR 0x0A] @ ''cK '' @ [CHR 0x0A] @ ''cL '' @ [CHR 0x0A])] \<and>
   partition_census toy_engine [''# a;'', ''cK'', ''cL'', ''# b;'', ''cM'', ''cN''] 1 ''out_'' =
     Some [(''out_0.sigs'', ''# b;Z;'' @ [CHR 0x0A] @ ''cM '' @ [CHR 0x0A] @ ''cN '' @ [CHR 0x0A])]"
  by code_simp

end
